theory Spec2Isabelle
  imports Main "HOL-Library.Word" "HOL-Library.Multiset"
begin

section \<open>Data model of main.go\<close>

text \<open>
  Go strings are byte sequences, so a Go \<open>string\<close> is a \<open>char list\<close>. The values of
  Go's \<open>error\<close> interface that reach a Result are the error of \<open>os.Open\<close>, the error
  of \<open>bufio.Scanner.Err\<close> and the value of \<open>ctx.Err()\<close> of a context that is done
  (\<open>context.Canceled\<close> or \<open>context.DeadlineExceeded\<close>); the error of
  \<open>viper.ReadInConfig\<close> is only ever printed.
\<close>

datatype error =
    Canceled
  | DeadlineExceeded
  | PathError string
  | ScanError string
  | ConfigFileError string

text \<open>\<open>type Job struct { FilePath string; Word string }\<close>\<close>

record Job =
  FilePath :: string
  Word :: string

text \<open>
  \<open>type Result struct { FilePath string; WordCount int; Error error }\<close>.
  Go's \<open>int\<close> is taken at its 64-bit width, so \<open>+=\<close> wraps around; a nil
  \<open>Error\<close> is \<open>None\<close>. A composite literal that leaves a field out sets it to its
  zero value: \<open>WordCount\<close> 0, \<open>Error\<close> nil.
\<close>

record Result =
  FilePath :: string
  WordCount :: "64 word"
  Error :: "error option"

section \<open>The library functions CountWord calls\<close>

subsection \<open>strings.Count\<close>

text \<open>
  \<open>utf8.RuneCountInString\<close>: the number of runes of a byte string, where a byte that
  does not start a well-formed UTF-8 sequence counts as one rune of width 1.
  \<open>rune_width\<close> is the number of bytes the first rune of a non-empty string takes:
  the table \<open>first\<close> of package utf8 gives, for the leading byte, the length of the
  sequence and the range accepted for the second byte; the later bytes are
  continuation bytes \<open>0x80..0xBF\<close>.
\<close>

definition is_cont :: "nat \<Rightarrow> bool" where
  "is_cont b \<longleftrightarrow> 128 \<le> b \<and> b \<le> 191"

definition first_info :: "nat \<Rightarrow> (nat \<times> nat \<times> nat) option" where
  "first_info c =
     (if c < 194 then None
      else if c \<le> 223 then Some (2, 128, 191)
      else if c = 224 then Some (3, 160, 191)
      else if c \<le> 236 then Some (3, 128, 191)
      else if c = 237 then Some (3, 128, 159)
      else if c \<le> 239 then Some (3, 128, 191)
      else if c = 240 then Some (4, 144, 191)
      else if c \<le> 243 then Some (4, 128, 191)
      else if c = 244 then Some (4, 128, 143)
      else None)"

definition rune_width :: "string \<Rightarrow> nat" where
  "rune_width s =
     (case s of
        [] \<Rightarrow> 0
      | c # cs \<Rightarrow>
          (case first_info (of_char c) of
             None \<Rightarrow> 1
           | Some (n, lo, hi) \<Rightarrow>
               if length cs + 1 < n then 1
               else if of_char (cs ! 0) < lo \<or> hi < (of_char (cs ! 0) :: nat) then 1
               else if n = 2 then 2
               else if \<not> is_cont (of_char (cs ! 1)) then 1
               else if n = 3 then 3
               else if \<not> is_cont (of_char (cs ! 2)) then 1
               else 4))"

lemma rune_width_pos: "s \<noteq> [] \<Longrightarrow> 0 < rune_width s"
  by (auto simp: rune_width_def split: list.splits option.splits)

function RuneCountInString :: "string \<Rightarrow> nat" where
  "RuneCountInString s =
     (if s = [] then 0 else 1 + RuneCountInString (drop (rune_width s) s))"
  by pat_completeness auto
termination
  by (relation "measure length") (auto simp: rune_width_pos)

declare RuneCountInString.simps [simp del]

text \<open>
  \<open>strings.HasPrefix\<close> and \<open>strings.Index\<close>: the index of the first occurrence of
  \<open>substr\<close> in \<open>s\<close>, \<open>None\<close> for Go's \<open>-1\<close>.
\<close>

definition HasPrefix :: "string \<Rightarrow> string \<Rightarrow> bool" where
  "HasPrefix s p \<longleftrightarrow> length p \<le> length s \<and> take (length p) s = p"

fun Index :: "string \<Rightarrow> string \<Rightarrow> nat option" where
  "Index [] substr = (if substr = [] then Some 0 else None)"
| "Index (c # s) substr =
     (if HasPrefix (c # s) substr then Some 0 else map_option Suc (Index s substr))"

lemma Index_bound: "Index s substr = Some i \<Longrightarrow> i + length substr \<le> length s"
  by (induction s arbitrary: i) (auto simp: HasPrefix_def split: if_splits)

text \<open>
  \<open>strings.Count(s, substr)\<close>: for an empty \<open>substr\<close> the number of runes of \<open>s\<close>
  plus one; otherwise the loop
  \<^verbatim>\<open>for { i := Index(s, substr); if i == -1 { return n }; n++; s = s[i+len(substr):] }\<close>
  (for a \<open>substr\<close> of one byte the library counts the bytes equal to it, which is
  what the loop gives). The result is at most the length of \<open>s\<close>, so it is a
  \<open>nat\<close> here and no Go \<open>int\<close> overflows inside Count.
\<close>

function Count :: "string \<Rightarrow> string \<Rightarrow> nat" where
  "Count s substr =
     (if substr = [] then RuneCountInString s + 1
      else (case Index s substr of
              None \<Rightarrow> 0
            | Some i \<Rightarrow> 1 + Count (drop (i + length substr) s) substr))"
  by pat_completeness auto
termination
proof (relation "measure (\<lambda>(s, substr). length s)")
  show "wf (measure (\<lambda>(s, substr). length s))" by simp
next
  fix s substr :: string and i
  assume ne: "substr \<noteq> []" and ix: "Index s substr = Some i"
  from Index_bound [OF ix] ne have "0 < length s" by (cases substr) auto
  moreover from ne have "0 < i + length substr" by simp
  ultimately show "((drop (i + length substr) s, substr), (s, substr))
      \<in> measure (\<lambda>(s, substr). length s)"
    by simp
qed

declare Count.simps [simp del]

subsection \<open>os.Open and bufio.Scanner\<close>

text \<open>
  What \<open>bufio.NewScanner(file)\<close> yields for an opened file: the tokens that the
  successive calls of \<open>Scan()\<close> return through \<open>Text()\<close> (the lines of the file,
  without their line terminators), and the value of \<open>Err()\<close> once \<open>Scan()\<close> has
  returned false: \<open>None\<close> at a clean end-of-file, the read error otherwise (an
  input/output error, or \<open>bufio.ErrTooLong\<close> for a line that does not fit the
  scanner's buffer). The file is taken as it is when it is opened.
\<close>

record scanned =
  tokens :: "string list"
  scan_err :: "error option"

text \<open>\<open>os.Open\<close>: the file system maps a path to an open error or to a file.\<close>

type_synonym filesystem = "string \<Rightarrow> error + scanned"

subsection \<open>context.Context\<close>

text \<open>
  Inside one call of CountWord the context is seen only through the polls
  \<^verbatim>\<open>select { case <-ctx.Done(): ... default: ... }\<close>, one before each line. A
  \<open>polls\<close> value gives what the \<open>k\<close>-th poll (counted from 0) observes: \<open>None\<close> when
  \<open>Done\<close> is not closed yet, \<open>Some e\<close> when it is closed and \<open>ctx.Err()\<close> is \<open>e\<close>.
\<close>

type_synonym polls = "nat \<Rightarrow> error option"

definition never_done :: polls where
  "never_done = (\<lambda>k. None)"

section \<open>CountWord\<close>

text \<open>
  The loop \<^verbatim>\<open>for scanner.Scan() { select { ... } }\<close> over the lines still to come;
  \<open>k\<close> is the number of polls made so far, \<open>wordCount\<close> the running total.
  \<open>Inl e\<close> is the return from inside the loop on cancellation.
\<close>

fun scan_lines :: "polls \<Rightarrow> nat \<Rightarrow> string \<Rightarrow> string list \<Rightarrow> 64 word \<Rightarrow> error + 64 word" where
  "scan_lines ctx k word [] wordCount = Inr wordCount"
| "scan_lines ctx k word (line # rest) wordCount =
     (case ctx k of
        Some e \<Rightarrow> Inl e
      | None \<Rightarrow> scan_lines ctx (Suc k) word rest (wordCount + of_nat (Count line word)))"

definition CountWord :: "filesystem \<Rightarrow> polls \<Rightarrow> Job \<Rightarrow> Result" where
  "CountWord fs ctx job =
     (case fs (Job.FilePath job) of
        Inl err \<Rightarrow> \<lparr>Result.FilePath = Job.FilePath job, WordCount = 0, Error = Some err\<rparr>
      | Inr file \<Rightarrow>
          (case scan_lines ctx 0 (Job.Word job) (tokens file) 0 of
             Inl e \<Rightarrow> \<lparr>Result.FilePath = Job.FilePath job, WordCount = 0, Error = Some e\<rparr>
           | Inr wordCount \<Rightarrow>
               (case scan_err file of
                  Some err \<Rightarrow> \<lparr>Result.FilePath = Job.FilePath job, WordCount = 0, Error = Some err\<rparr>
                | None \<Rightarrow> \<lparr>Result.FilePath = Job.FilePath job, WordCount = wordCount, Error = None\<rparr>)))"

section \<open>LoadConfig\<close>

text \<open>
  \<open>type FileProcessor struct { Files []string; Word string; Results chan Result;
  WorkerCount int }\<close>. The channel \<open>Results\<close> is nil until ProcessFiles makes it; it
  is the component \<open>results\<close> of the pipeline state below. \<open>WorkerCount\<close> is only
  compared with a loop counter that starts at 0, so no arithmetic on it can overflow.
\<close>

record FileProcessor =
  Files :: "string list"
  Word :: string
  WorkerCount :: int

definition NewFileProcessor :: "string list \<Rightarrow> string \<Rightarrow> int \<Rightarrow> FileProcessor" where
  "NewFileProcessor files word workerCount =
     \<lparr>Files = files, Word = word, WorkerCount = workerCount\<rparr>"

text \<open>
  The package viper is not part of the repository. LoadConfig sees it through five
  calls, whose values are the parameters of the model: the error of
  \<open>viper.ReadInConfig()\<close> and, after the defaults have been set, the values of
  \<open>viper.GetStringSlice("files")\<close>, \<open>viper.GetString("files")\<close>,
  \<open>viper.GetString("word")\<close> and \<open>viper.GetInt("workerCount")\<close>.
\<close>

record viper =
  ReadInConfig :: "error option"
  GetStringSlice_files :: "string list"
  GetString_files :: string
  GetString_word :: string
  GetInt_workerCount :: int

text \<open>The lines the program prints, one constructor for each print statement.\<close>

datatype stdout_line =
    ConfigReadError error
  | EnvFiles "string list"
  | WordLine string
  | WorkerLine int
  | ConfigFailure error
  | ShuttingDown
  | FileError string error
  | Processed string "64 word"

text \<open>\<open>strings.Split(s, ",")\<close>: the pieces of \<open>s\<close> between the commas.\<close>

fun Split_comma :: "string \<Rightarrow> string list" where
  "Split_comma [] = [[]]"
| "Split_comma (c # s) =
     (if c = CHR '','' then [] # Split_comma s
      else (case Split_comma s of
              [] \<Rightarrow> [[c]]
            | piece # pieces \<Rightarrow> (c # piece) # pieces))"

text \<open>
  LoadConfig returns the processor, the error (always written \<open>nil\<close> in the source) and
  what it printed.
\<close>

definition LoadConfig :: "viper \<Rightarrow> FileProcessor \<times> error option \<times> stdout_line list" where
  "LoadConfig v =
     (let out1 = (case ReadInConfig v of Some err \<Rightarrow> [ConfigReadError err] | None \<Rightarrow> []);
          files = GetStringSlice_files v;
          word = GetString_word v;
          workerCount = GetInt_workerCount v;
          envfiles = GetString_files v;
          files = (if envfiles \<noteq> [] then Split_comma envfiles else files);
          out2 = [EnvFiles files, WordLine word, WorkerLine workerCount];
          fp = NewFileProcessor files word workerCount
      in (fp, None, out1 @ out2))"

section \<open>ProcessFiles and Worker\<close>

text \<open>
  A buffered channel: its queue, its capacity and whether it has been closed. A send
  can proceed when the queue is shorter than the capacity; a receive can proceed when
  the queue is not empty (it takes the head) or the channel is closed (it reports
  \<open>ok = false\<close>).
\<close>

record 'a chan =
  buf :: "'a list"
  cap :: nat
  closed :: bool

text \<open>
  Where the goroutine running ProcessFiles stands: in the loop that starts the workers
  with counter \<open>i\<close>, in the loop that feeds the jobs with the files still to send,
  before \<open>close(jobs)\<close>, in \<open>wg.Wait()\<close>, before \<open>close(fp.Results)\<close>, or returned.
\<close>

datatype dispatcher =
    Spawning int
  | Feeding "string list"
  | ClosingJobs
  | Waiting
  | ClosingResults
  | Returned

text \<open>
  Where a Worker goroutine stands: at its \<open>select\<close>; inside CountWord before
  \<open>os.Open\<close>; inside the scan loop with the lines still to come, the error the
  scanner will report and \<open>wordCount\<close>; before the send \<open>fp.Results <- result\<close>; or
  returned (after the deferred \<open>wg.Done()\<close>).
\<close>

datatype worker =
    Selecting
  | Opening Job
  | Scanning Job "string list" "error option" "64 word"
  | Publishing Job Result
  | Exited

record pipeline =
  jobs :: "Job chan"
  results :: "Result chan"
  wg :: int
  workers :: "worker list"
  disp :: dispatcher
  ctx_err :: "error option"
  printed :: "stdout_line list"

text \<open>The state after the two \<open>make\<close>s and the declaration of the WaitGroup.\<close>

definition ProcessFiles_init :: "FileProcessor \<Rightarrow> error option \<Rightarrow> pipeline" where
  "ProcessFiles_init fp ctx =
     \<lparr>jobs = \<lparr>buf = [], cap = length (Files fp), closed = False\<rparr>,
      results = \<lparr>buf = [], cap = length (Files fp), closed = False\<rparr>,
      wg = 0, workers = [], disp = Spawning 0, ctx_err = ctx, printed = []\<rparr>"

text \<open>One step of the goroutine running ProcessFiles; \<open>None\<close> when it is blocked.\<close>

definition ProcessFiles_step :: "FileProcessor \<Rightarrow> pipeline \<Rightarrow> pipeline option" where
  "ProcessFiles_step fp s =
     (case disp s of
        Spawning i \<Rightarrow>
          if i < WorkerCount fp
          then Some (s\<lparr>wg := wg s + 1, workers := workers s @ [Selecting], disp := Spawning (i + 1)\<rparr>)
          else Some (s\<lparr>disp := Feeding (Files fp)\<rparr>)
      | Feeding [] \<Rightarrow> Some (s\<lparr>disp := ClosingJobs\<rparr>)
      | Feeding (filepath # rest) \<Rightarrow>
          if length (buf (jobs s)) < cap (jobs s)
          then Some (s\<lparr>jobs := (jobs s)\<lparr>buf := buf (jobs s) @
                         [\<lparr>Job.FilePath = filepath, Job.Word = FileProcessor.Word fp\<rparr>]\<rparr>,
                       disp := Feeding rest\<rparr>)
          else None
      | ClosingJobs \<Rightarrow> Some (s\<lparr>jobs := (jobs s)\<lparr>closed := True\<rparr>, disp := Waiting\<rparr>)
      | Waiting \<Rightarrow> if wg s = 0 then Some (s\<lparr>disp := ClosingResults\<rparr>) else None
      | ClosingResults \<Rightarrow> Some (s\<lparr>results := (results s)\<lparr>closed := True\<rparr>, disp := Returned\<rparr>)
      | Returned \<Rightarrow> None)"

text \<open>
  One step of a Worker: at its \<open>select\<close>, the case that receives from the job
  channel (a job, or the news that the channel is closed and empty); then the body
  of CountWord, one line of the file at a time; then the send of the result.
  \<open>None\<close> when the worker is blocked or has returned.
\<close>

definition Worker_step :: "filesystem \<Rightarrow> pipeline \<Rightarrow> worker \<Rightarrow> (worker \<times> pipeline) option" where
  "Worker_step fs s w =
     (case w of
        Selecting \<Rightarrow>
          (case buf (jobs s) of
             job # rest \<Rightarrow> Some (Opening job, s\<lparr>jobs := (jobs s)\<lparr>buf := rest\<rparr>\<rparr>)
           | [] \<Rightarrow> if closed (jobs s) then Some (Exited, s\<lparr>wg := wg s - 1\<rparr>) else None)
      | Opening job \<Rightarrow>
          (case fs (Job.FilePath job) of
             Inl err \<Rightarrow>
               Some (Publishing job \<lparr>Result.FilePath = Job.FilePath job, WordCount = 0, Error = Some err\<rparr>, s)
           | Inr file \<Rightarrow> Some (Scanning job (tokens file) (scan_err file) 0, s))
      | Scanning job [] err wordCount \<Rightarrow>
          (case err of
             Some e \<Rightarrow>
               Some (Publishing job \<lparr>Result.FilePath = Job.FilePath job, WordCount = 0, Error = Some e\<rparr>, s)
           | None \<Rightarrow>
               Some (Publishing job
                 \<lparr>Result.FilePath = Job.FilePath job, WordCount = wordCount, Error = None\<rparr>, s))
      | Scanning job (line # rest) err wordCount \<Rightarrow>
          (case ctx_err s of
             Some e \<Rightarrow>
               Some (Publishing job \<lparr>Result.FilePath = Job.FilePath job, WordCount = 0, Error = Some e\<rparr>, s)
           | None \<Rightarrow>
               Some (Scanning job rest err (wordCount + of_nat (Count line (Job.Word job))), s))
      | Publishing job result \<Rightarrow>
          if length (buf (results s)) < cap (results s)
          then Some (Selecting, s\<lparr>results := (results s)\<lparr>buf := buf (results s) @ [result]\<rparr>\<rparr>)
          else None
      | Exited \<Rightarrow> None)"

text \<open>The other case of the \<open>select\<close>: \<open>ctx.Done()\<close> is closed.\<close>

definition Worker_done :: "pipeline \<Rightarrow> worker \<Rightarrow> (worker \<times> pipeline) option" where
  "Worker_done s w =
     (case w of
        Selecting \<Rightarrow>
          (case ctx_err s of
             Some e \<Rightarrow> Some (Exited, s\<lparr>wg := wg s - 1, printed := printed s @ [ShuttingDown]\<rparr>)
           | None \<Rightarrow> None)
      | _ \<Rightarrow> None)"

text \<open>
  The scheduler picks the goroutine that moves next; where both cases of a worker's
  \<open>select\<close> can proceed, it also picks the case. The caller of ProcessFiles may
  cancel the context at any moment.
\<close>

datatype action =
    Dispatch
  | Work nat
  | Quit nat
  | Cancel error

definition set_worker :: "nat \<Rightarrow> (worker \<times> pipeline) option \<Rightarrow> pipeline option" where
  "set_worker k r =
     (case r of None \<Rightarrow> None | Some (w, s) \<Rightarrow> Some (s\<lparr>workers := (workers s)[k := w]\<rparr>))"

definition step :: "FileProcessor \<Rightarrow> filesystem \<Rightarrow> action \<Rightarrow> pipeline \<Rightarrow> pipeline option" where
  "step fp fs a s =
     (case a of
        Dispatch \<Rightarrow> ProcessFiles_step fp s
      | Work k \<Rightarrow>
          if k < length (workers s) then set_worker k (Worker_step fs s (workers s ! k)) else None
      | Quit k \<Rightarrow>
          if k < length (workers s) then set_worker k (Worker_done s (workers s ! k)) else None
      | Cancel e \<Rightarrow> (case ctx_err s of None \<Rightarrow> Some (s\<lparr>ctx_err := Some e\<rparr>) | Some _ \<Rightarrow> None))"

fun run :: "FileProcessor \<Rightarrow> filesystem \<Rightarrow> action list \<Rightarrow> pipeline \<Rightarrow> pipeline option" where
  "run fp fs [] s = Some s"
| "run fp fs (a # as) s =
     (case step fp fs a s of None \<Rightarrow> None | Some s' \<Rightarrow> run fp fs as s')"


section \<open>main\<close>

text \<open>
  The loop \<^verbatim>\<open>for result := range fp.Results\<close> runs after ProcessFiles has returned,
  over the results in the closed channel.
\<close>

definition print_result :: "Result \<Rightarrow> stdout_line list" where
  "print_result result =
     (case Error result of
        Some e \<Rightarrow> [FileError (Result.FilePath result) e]
      | None \<Rightarrow> [])
     @ [Processed (Result.FilePath result) (WordCount result)]"

fun is_Cancel :: "action \<Rightarrow> bool" where
  "is_Cancel (Cancel e) = True"
| "is_Cancel _ = False"

text \<open>
  What main prints, under a schedule of the goroutines of ProcessFiles. main makes its
  context with \<open>context.WithCancel(context.Background())\<close> and defers \<open>cancel()\<close> to
  its own return, so the schedule holds no cancellation; \<open>None\<close> when the schedule
  is not a complete run.
\<close>

definition main :: "viper \<Rightarrow> filesystem \<Rightarrow> action list \<Rightarrow> stdout_line list option" where
  "main v fs sched =
     (case LoadConfig v of
        (fp, err, out) \<Rightarrow>
          (case err of
             Some e \<Rightarrow> Some (out @ [ConfigFailure e])
           | None \<Rightarrow>
               if list_ex is_Cancel sched then None
               else (case run fp fs sched (ProcessFiles_init fp None) of
                       None \<Rightarrow> None
                     | Some s \<Rightarrow>
                         if disp s = Returned
                         then Some (out @ printed s @ concat (map print_result (buf (results s))))
                         else None)))"

section \<open>The specification's count of occurrences\<close>

text \<open>
  The specification counts, in each line, the non-overlapping occurrences of the
  target word as a substring: the word occurs at position \<open>i\<close> of the line when the
  line holds it from byte \<open>i\<close> on; a set of positions is non-overlapping when the word
  occurs at each of them and no two of the occurrences share a byte; the number of
  non-overlapping occurrences is the size of the largest such set.
\<close>

definition occurs_at :: "string \<Rightarrow> string \<Rightarrow> nat \<Rightarrow> bool" where
  "occurs_at word line i \<longleftrightarrow>
     i + length word \<le> length line \<and> take (length word) (drop i line) = word"

definition non_overlapping :: "string \<Rightarrow> string \<Rightarrow> nat set \<Rightarrow> bool" where
  "non_overlapping word line P \<longleftrightarrow>
     (\<forall>i\<in>P. occurs_at word line i) \<and> (\<forall>i\<in>P. \<forall>j\<in>P. i < j \<longrightarrow> i + length word \<le> j)"

definition occurrences :: "string \<Rightarrow> string \<Rightarrow> nat" where
  "occurrences word line =
     Max (card ` {P \<in> Pow {0..length line}. non_overlapping word line P})"

definition total_occurrences :: "string \<Rightarrow> string list \<Rightarrow> nat" where
  "total_occurrences word lines = (\<Sum>line\<leftarrow>lines. occurrences word line)"

text \<open>What the scan loop adds up over a list of lines.\<close>

definition counted :: "string \<Rightarrow> string list \<Rightarrow> nat" where
  "counted word lines = (\<Sum>line\<leftarrow>lines. Count line word)"

section \<open>Invariants of the pipeline\<close>

text \<open>
  The jobs a worker holds (at most one), the jobs all workers hold, the number of
  workers that have not returned, the files ProcessFiles has still to send, and the
  Job it makes for a file.
\<close>

fun worker_jobs :: "worker \<Rightarrow> Job multiset" where
  "worker_jobs Selecting = {#}"
| "worker_jobs (Opening job) = {#job#}"
| "worker_jobs (Scanning job rest err wordCount) = {#job#}"
| "worker_jobs (Publishing job result) = {#job#}"
| "worker_jobs Exited = {#}"

definition in_flight :: "worker list \<Rightarrow> Job multiset" where
  "in_flight ws = (\<Sum>w\<leftarrow>ws. worker_jobs w)"

fun alive :: "worker \<Rightarrow> nat" where
  "alive Exited = 0"
| "alive Selecting = 1"
| "alive (Opening job) = 1"
| "alive (Scanning job rest err wordCount) = 1"
| "alive (Publishing job result) = 1"

definition live :: "worker list \<Rightarrow> nat" where
  "live ws = (\<Sum>w\<leftarrow>ws. alive w)"

fun unsent :: "FileProcessor \<Rightarrow> dispatcher \<Rightarrow> string list" where
  "unsent fp (Spawning i) = Files fp"
| "unsent fp (Feeding rest) = rest"
| "unsent fp ClosingJobs = []"
| "unsent fp Waiting = []"
| "unsent fp ClosingResults = []"
| "unsent fp Returned = []"

definition Job_for :: "FileProcessor \<Rightarrow> string \<Rightarrow> Job" where
  "Job_for fp filepath = \<lparr>Job.FilePath = filepath, Job.Word = FileProcessor.Word fp\<rparr>"

text \<open>
  The Result a worker may publish for a job: the one CountWord returns when the
  context is never done, or, once the context is done with error \<open>e\<close>, the Result
  that carries \<open>e\<close> and the count 0.
\<close>

definition outcome :: "filesystem \<Rightarrow> error option \<Rightarrow> Job \<Rightarrow> Result \<Rightarrow> bool" where
  "outcome fs c job result \<longleftrightarrow>
     result = CountWord fs never_done job \<or>
     (case c of
        Some e \<Rightarrow> result = \<lparr>Result.FilePath = Job.FilePath job, WordCount = 0, Error = Some e\<rparr>
      | None \<Rightarrow> False)"

text \<open>
  What holds of the local variables of a worker: its job carries the word of the
  processor; inside the scan loop the file of the job is open, the lines still to
  come are a suffix of its lines and \<open>wordCount\<close> is what the lines before them
  added up to; before the send, the result is an outcome of the job.
\<close>

fun worker_ok :: "FileProcessor \<Rightarrow> filesystem \<Rightarrow> error option \<Rightarrow> worker \<Rightarrow> bool" where
  "worker_ok fp fs c Selecting = True"
| "worker_ok fp fs c (Opening job) = (Job.Word job = FileProcessor.Word fp)"
| "worker_ok fp fs c (Scanning job rest err wordCount) =
     (Job.Word job = FileProcessor.Word fp \<and>
      (case fs (Job.FilePath job) of
         Inl e \<Rightarrow> False
       | Inr opened \<Rightarrow>
           err = scan_err opened \<and>
           (\<exists>seen. tokens opened = seen @ rest \<and>
                   wordCount = of_nat (counted (Job.Word job) seen))))"
| "worker_ok fp fs c (Publishing job result) =
     (Job.Word job = FileProcessor.Word fp \<and> Result.FilePath result = Job.FilePath job \<and>
      outcome fs c job result)"
| "worker_ok fp fs c Exited = True"

text \<open>
  The number of workers in each phase of ProcessFiles, and the invariant of the
  phases: the capacities, the WaitGroup counter, and which channel is closed when.
\<close>

fun spawned :: "FileProcessor \<Rightarrow> dispatcher \<Rightarrow> nat \<Rightarrow> bool" where
  "spawned fp (Spawning i) n \<longleftrightarrow> (i = 0 \<or> (0 \<le> i \<and> i \<le> WorkerCount fp)) \<and> n = nat i"
| "spawned fp (Feeding rest) n \<longleftrightarrow> n = nat (WorkerCount fp)"
| "spawned fp ClosingJobs n \<longleftrightarrow> n = nat (WorkerCount fp)"
| "spawned fp Waiting n \<longleftrightarrow> n = nat (WorkerCount fp)"
| "spawned fp ClosingResults n \<longleftrightarrow> n = nat (WorkerCount fp)"
| "spawned fp Returned n \<longleftrightarrow> n = nat (WorkerCount fp)"

definition phase_inv :: "FileProcessor \<Rightarrow> pipeline \<Rightarrow> bool" where
  "phase_inv fp s \<longleftrightarrow>
     cap (jobs s) = length (Files fp) \<and> cap (results s) = length (Files fp) \<and>
     wg s = int (live (workers s)) \<and>
     (closed (jobs s) \<longleftrightarrow> disp s = Waiting \<or> disp s = ClosingResults \<or> disp s = Returned) \<and>
     (closed (results s) \<longleftrightarrow> disp s = Returned) \<and>
     (disp s = ClosingResults \<or> disp s = Returned \<longrightarrow> live (workers s) = 0) \<and>
     spawned fp (disp s) (length (workers s)) \<and>
     ((\<exists>i. disp s = Spawning i) \<longrightarrow> buf (jobs s) = [])"

text \<open>
  The job queue, followed by the jobs of the files still to send, is a suffix of the
  jobs of the file list.
\<close>

definition queue_inv :: "FileProcessor \<Rightarrow> pipeline \<Rightarrow> bool" where
  "queue_inv fp s \<longleftrightarrow>
     (\<exists>taken. map (Job_for fp) (Files fp)
        = taken @ buf (jobs s) @ map (Job_for fp) (unsent fp (disp s)))"

text \<open>Every worker is as \<open>worker_ok\<close> says, and every published Result is an outcome.\<close>

definition workers_inv :: "FileProcessor \<Rightarrow> filesystem \<Rightarrow> pipeline \<Rightarrow> bool" where
  "workers_inv fp fs s \<longleftrightarrow>
     (\<forall>w\<in>set (workers s). worker_ok fp fs (ctx_err s) w) \<and>
     (\<forall>r\<in>set (buf (results s)). outcome fs (ctx_err s) (Job_for fp (Result.FilePath r)) r)"

text \<open>
  The jobs still to send, in the queue, held by workers and answered by a Result are,
  together, the jobs of the file list.
\<close>

definition conservation :: "FileProcessor \<Rightarrow> pipeline \<Rightarrow> bool" where
  "conservation fp s \<longleftrightarrow>
     mset (map (Job_for fp) (unsent fp (disp s))) + mset (buf (jobs s)) + in_flight (workers s)
       + mset (map (\<lambda>r. Job_for fp (Result.FilePath r)) (buf (results s)))
     = mset (map (Job_for fp) (Files fp))"

text \<open>
  While the context is not done, a worker has returned only if the job queue is
  closed and empty.
\<close>

definition drain_inv :: "pipeline \<Rightarrow> bool" where
  "drain_inv s \<longleftrightarrow>
     (ctx_err s = None \<and> Exited \<in> set (workers s) \<longrightarrow> closed (jobs s) \<and> buf (jobs s) = [])"

definition invariant :: "FileProcessor \<Rightarrow> filesystem \<Rightarrow> pipeline \<Rightarrow> bool" where
  "invariant fp fs s \<longleftrightarrow>
     phase_inv fp s \<and> queue_inv fp s \<and> workers_inv fp fs s \<and> conservation fp s \<and> drain_inv s"

text \<open>
  An upper bound on the number of steps a run can still take: every step that is not
  a cancellation lowers it.
\<close>

definition job_cost :: "filesystem \<Rightarrow> Job \<Rightarrow> nat" where
  "job_cost fs job =
     4 + (case fs (Job.FilePath job) of Inl e \<Rightarrow> 0 | Inr opened \<Rightarrow> length (tokens opened))"

fun worker_cost :: "filesystem \<Rightarrow> worker \<Rightarrow> nat" where
  "worker_cost fs Exited = 0"
| "worker_cost fs Selecting = 1"
| "worker_cost fs (Publishing job result) = 2"
| "worker_cost fs (Scanning job rest err wordCount) = length rest + 3"
| "worker_cost fs (Opening job) = job_cost fs job"

fun disp_cost :: "FileProcessor \<Rightarrow> dispatcher \<Rightarrow> nat" where
  "disp_cost fp (Spawning i) = 2 * nat (WorkerCount fp - i) + length (Files fp) + 5"
| "disp_cost fp (Feeding rest) = length rest + 4"
| "disp_cost fp ClosingJobs = 3"
| "disp_cost fp Waiting = 2"
| "disp_cost fp ClosingResults = 1"
| "disp_cost fp Returned = 0"

definition steps_left :: "FileProcessor \<Rightarrow> filesystem \<Rightarrow> pipeline \<Rightarrow> nat" where
  "steps_left fp fs s =
     disp_cost fp (disp s)
     + (\<Sum>filepath\<leftarrow>unsent fp (disp s). job_cost fs (Job_for fp filepath))
     + (\<Sum>job\<leftarrow>buf (jobs s). job_cost fs job)
     + (\<Sum>w\<leftarrow>workers s. worker_cost fs w)"

section \<open>strings.Count counts the non-overlapping occurrences\<close>

lemma HasPrefix_occurs: "HasPrefix s w \<longleftrightarrow> occurs_at w s 0"
  by (simp add: HasPrefix_def occurs_at_def)

lemma occurs_at_Cons: "occurs_at w (c # s) (Suc i) \<longleftrightarrow> occurs_at w s i"
  by (simp add: occurs_at_def)

lemma Index_None: "Index s w = None \<Longrightarrow> \<not> occurs_at w s i"
proof (induction s arbitrary: i)
  case Nil
  then show ?case by (auto simp: occurs_at_def split: if_splits)
next
  case (Cons c s)
  then show ?case
    by (cases i) (auto simp: HasPrefix_occurs occurs_at_Cons split: if_splits)
qed

lemma Index_Some: "Index s w = Some i \<Longrightarrow> occurs_at w s i \<and> (\<forall>j<i. \<not> occurs_at w s j)"
proof (induction s arbitrary: i)
  case Nil
  then show ?case by (auto simp: occurs_at_def split: if_splits)
next
  case (Cons c s)
  show ?case
  proof (cases "HasPrefix (c # s) w")
    case True
    with Cons.prems show ?thesis by (simp add: HasPrefix_occurs)
  next
    case False
    with Cons.prems obtain i' where i': "Index s w = Some i'" "i = Suc i'" by auto
    from Cons.IH [OF i'(1)] have ih: "occurs_at w s i'" "\<forall>j<i'. \<not> occurs_at w s j" by auto
    have "\<not> occurs_at w (c # s) j" if "j < i" for j
    proof (cases j)
      case 0
      with False show ?thesis by (simp add: HasPrefix_occurs)
    next
      case (Suc j')
      with that i'(2) ih(2) show ?thesis by (simp add: occurs_at_Cons)
    qed
    with ih(1) i'(2) show ?thesis by (simp add: occurs_at_Cons)
  qed
qed

lemma occurs_at_drop:
  "occurs_at w (drop n s) i \<longleftrightarrow> n + i \<le> length s \<and> occurs_at w s (n + i)" if "w \<noteq> []"
  using that by (cases w) (auto simp: occurs_at_def add.commute)

lemma non_overlapping_finite: "non_overlapping w s P \<Longrightarrow> finite P"
proof -
  assume "non_overlapping w s P"
  then have "P \<subseteq> {..length s}" by (auto simp: non_overlapping_def occurs_at_def)
  then show "finite P" by (rule finite_subset) simp
qed

text \<open>No set of non-overlapping occurrences is larger than what the loop counts.\<close>

lemma Count_upper:
  "w \<noteq> [] \<Longrightarrow> non_overlapping w s P \<Longrightarrow> card P \<le> Count s w"
proof (induction s w arbitrary: P rule: Count.induct)
  case (1 s w)
  note ne = \<open>w \<noteq> []\<close> and no = \<open>non_overlapping w s P\<close>
  have fin: "finite P" using no by (rule non_overlapping_finite)
  show ?case
  proof (cases "Index s w")
    case None
    then have "P = {}" using no Index_None [OF None] by (auto simp: non_overlapping_def)
    then show ?thesis by simp
  next
    case (Some i)
    let ?d = "i + length w"
    have cnt: "Count s w = 1 + Count (drop ?d s) w"
      using ne Some by (subst Count.simps) simp
    show ?thesis
    proof (cases "P = {}")
      case True
      then show ?thesis by simp
    next
      case False
      define m where "m = Min P"
      have mP: "m \<in> P" and mle: "\<And>j. j \<in> P \<Longrightarrow> m \<le> j"
        using fin False by (auto simp: m_def)
      have "occurs_at w s m" using no mP by (auto simp: non_overlapping_def)
      with Index_Some [OF Some] have im: "i \<le> m" by (meson not_le)
      define Q where "Q = (\<lambda>j. j - ?d) ` (P - {m})"
      have far: "?d \<le> j" if "j \<in> P - {m}" for j
      proof -
        from that mle have "m < j" by (metis DiffE insertI1 le_neq_implies_less)
        with no mP that have "m + length w \<le> j" by (auto simp: non_overlapping_def)
        with im show ?thesis by simp
      qed
      have inj: "inj_on (\<lambda>j. j - ?d) (P - {m})"
        by (rule inj_onI) (metis far le_add_diff_inverse)
      have cardQ: "card Q = card P - 1"
        using inj mP fin by (simp add: Q_def card_image)
      have "non_overlapping w (drop ?d s) Q"
        unfolding non_overlapping_def
      proof (intro conjI ballI impI)
        fix q assume "q \<in> Q"
        then obtain j where j: "j \<in> P - {m}" "q = j - ?d" by (auto simp: Q_def)
        from far [OF j(1)] j(2) have "?d + q = j" by simp
        moreover from no j(1) have "occurs_at w s j" by (auto simp: non_overlapping_def)
        moreover from this have "j \<le> length s" by (simp add: occurs_at_def)
        ultimately show "occurs_at w (drop ?d s) q"
          using ne by (simp add: occurs_at_drop)
      next
        fix q r assume "q \<in> Q" "r \<in> Q" "q < r"
        then obtain j k where j: "j \<in> P - {m}" "q = j - ?d" and k: "k \<in> P - {m}" "r = k - ?d"
          by (auto simp: Q_def)
        from far [OF j(1)] far [OF k(1)] j(2) k(2) \<open>q < r\<close> have "j < k" by simp
        with no j(1) k(1) have "j + length w \<le> k" by (auto simp: non_overlapping_def)
        with far [OF j(1)] j(2) k(2) show "q + length w \<le> r" by simp
      qed
      from "1.IH" [OF ne Some ne this] have "card Q \<le> Count (drop ?d s) w" .
      with cardQ cnt show ?thesis by simp
    qed
  qed
qed

text \<open>The occurrences the loop finds are non-overlapping.\<close>

lemma Count_attained:
  "w \<noteq> [] \<Longrightarrow> \<exists>P. non_overlapping w s P \<and> card P = Count s w"
proof (induction s w rule: Count.induct)
  case (1 s w)
  note ne = \<open>w \<noteq> []\<close>
  show ?case
  proof (cases "Index s w")
    case None
    then have "Count s w = 0" using ne by (subst Count.simps) simp
    moreover have "non_overlapping w s {}" by (simp add: non_overlapping_def)
    ultimately show ?thesis by (intro exI [of _ "{}"]) simp
  next
    case (Some i)
    let ?d = "i + length w"
    have cnt: "Count s w = 1 + Count (drop ?d s) w"
      using ne Some by (subst Count.simps) simp
    from "1.IH" [OF ne Some ne] obtain Q where
      Q: "non_overlapping w (drop ?d s) Q" "card Q = Count (drop ?d s) w" by blast
    have finQ: "finite Q" using Q(1) by (rule non_overlapping_finite)
    define P where "P = insert i ((\<lambda>q. ?d + q) ` Q)"
    have occ_i: "occurs_at w s i" using Index_Some [OF Some] by simp
    have occ_Q: "occurs_at w s (?d + q)" if "q \<in> Q" for q
      using Q(1) that ne by (auto simp: non_overlapping_def occurs_at_drop)
    have "i \<notin> (\<lambda>q. ?d + q) ` Q" using ne by auto
    then have "card P = 1 + card Q"
      using finQ by (simp add: P_def card_image)
    moreover have "non_overlapping w s P"
      unfolding non_overlapping_def
    proof (intro conjI ballI impI)
      fix p assume "p \<in> P"
      then show "occurs_at w s p" using occ_i occ_Q by (auto simp: P_def)
    next
      fix p r assume pr: "p \<in> P" "r \<in> P" "p < r"
      show "p + length w \<le> r"
      proof (cases "p = i")
        case True
        with pr have "r \<in> (\<lambda>q. ?d + q) ` Q" by (auto simp: P_def)
        with True show ?thesis by auto
      next
        case False
        with pr obtain q where q: "q \<in> Q" "p = ?d + q" by (auto simp: P_def)
        with pr have "r \<noteq> i" by auto
        with pr obtain q' where q': "q' \<in> Q" "r = ?d + q'" by (auto simp: P_def)
        from q q' pr(3) have "q < q'" by simp
        with Q(1) q(1) q'(1) have "q + length w \<le> q'" by (auto simp: non_overlapping_def)
        with q(2) q'(2) show ?thesis by simp
      qed
    qed
    ultimately show ?thesis using cnt Q(2) by (intro exI [of _ P]) simp
  qed
qed

lemma Count_occurrences: "w \<noteq> [] \<Longrightarrow> Count s w = occurrences w s"
proof -
  assume ne: "w \<noteq> []"
  let ?S = "{P \<in> Pow {0..length s}. non_overlapping w s P}"
  have sub: "non_overlapping w s P \<Longrightarrow> P \<in> ?S" for P
    by (auto simp: non_overlapping_def occurs_at_def)
  have fin: "finite (card ` ?S)" by simp
  from Count_attained [OF ne, of s] obtain P where P: "non_overlapping w s P" "card P = Count s w"
    by blast
  from sub [OF P(1)] have "card P \<in> card ` ?S" by (rule imageI)
  with P(2) have "Count s w \<in> card ` ?S" by simp
  moreover have "n \<le> Count s w" if "n \<in> card ` ?S" for n
  proof -
    from that obtain Q where "non_overlapping w s Q" "n = card Q" by blast
    with Count_upper [OF ne] show ?thesis by simp
  qed
  ultimately have "Max (card ` ?S) = Count s w" using fin by (intro Max_eqI) auto
  then show ?thesis by (simp add: occurrences_def)
qed

lemma Count_empty: "Count s [] = RuneCountInString s + 1"
  by (subst Count.simps) simp

section \<open>The scan loop\<close>


lemma counted_simps [simp]:
  "counted word [] = 0"
  "counted word (line # lines) = Count line word + counted word lines"
  by (simp_all add: counted_def)

lemma counted_append: "counted word (xs @ ys) = counted word xs + counted word ys"
  by (simp add: counted_def)

lemma counted_occurrences: "word \<noteq> [] \<Longrightarrow> counted word lines = total_occurrences word lines"
  by (simp add: counted_def total_occurrences_def Count_occurrences)

lemma scan_lines_clean:
  "\<forall>j < length lines. ctx (k + j) = None \<Longrightarrow>
   scan_lines ctx k word lines acc = Inr (acc + of_nat (counted word lines))"
proof (induction lines arbitrary: k acc)
  case Nil
  then show ?case by simp
next
  case (Cons line lines)
  from Cons.prems have "ctx k = None" by (metis add.right_neutral length_greater_0_conv list.distinct(1))
  moreover have "\<forall>j < length lines. ctx (Suc k + j) = None"
  proof (intro allI impI)
    fix j assume "j < length lines"
    then have "Suc j < length (line # lines)" by simp
    with Cons.prems have "ctx (k + Suc j) = None" by blast
    then show "ctx (Suc k + j) = None" by simp
  qed
  ultimately show ?case using Cons.IH [of "Suc k"] by (simp add: add.assoc)
qed

lemma scan_lines_cancelled:
  "n < length lines \<Longrightarrow> \<forall>j < n. ctx (k + j) = None \<Longrightarrow> ctx (k + n) = Some e \<Longrightarrow>
   scan_lines ctx k word lines acc = Inl e"
proof (induction lines arbitrary: k n acc)
  case Nil
  then show ?case by simp
next
  case (Cons line lines)
  show ?case
  proof (cases n)
    case 0
    with Cons.prems show ?thesis by simp
  next
    case (Suc m)
    with Cons.prems have k: "ctx k = None" by (metis add.right_neutral zero_less_Suc)
    have "\<forall>j < m. ctx (Suc k + j) = None"
    proof (intro allI impI)
      fix j assume "j < m"
      then have "Suc j < n" using Suc by simp
      with Cons.prems have "ctx (k + Suc j) = None" by blast
      then show "ctx (Suc k + j) = None" by simp
    qed
    moreover from Cons.prems Suc have "m < length lines" "ctx (Suc k + m) = Some e" by simp_all
    ultimately show ?thesis using k Cons.IH [of m "Suc k"] by simp
  qed
qed

lemma sint_of_nat_64: "n < 2 ^ 63 \<Longrightarrow> sint (of_nat n :: 64 word) = int n"
proof -
  assume "n < 2 ^ 63"
  then have "int n < 2 ^ 63" by (metis of_nat_less_iff of_nat_numeral of_nat_power)
  then show ?thesis by (simp add: signed_of_nat signed_take_bit_int_eq_self)
qed

lemma CountWord_clean:
  assumes "fs (Job.FilePath job) = Inr file" and "scan_err file = None"
    and "\<forall>k < length (tokens file). ctx k = None"
  shows "CountWord fs ctx job =
    \<lparr>Result.FilePath = Job.FilePath job,
     WordCount = of_nat (counted (Job.Word job) (tokens file)), Error = None\<rparr>"
  using assms scan_lines_clean [of "tokens file" ctx 0 "Job.Word job" 0]
  by (simp add: CountWord_def)

section \<open>The steps of the pipeline\<close>

lemma ProcessFiles_step_cases [consumes 1, case_names Spawn Spawned Feed Fed CloseJobs Wait CloseResults]:
  assumes "ProcessFiles_step fp s = Some s'"
  obtains
    (Spawn) i where "disp s = Spawning i" "i < WorkerCount fp"
      "s' = s\<lparr>wg := wg s + 1, workers := workers s @ [Selecting], disp := Spawning (i + 1)\<rparr>"
  | (Spawned) i where "disp s = Spawning i" "\<not> i < WorkerCount fp"
      "s' = s\<lparr>disp := Feeding (Files fp)\<rparr>"
  | (Feed) filepath rest where "disp s = Feeding (filepath # rest)"
      "length (buf (jobs s)) < cap (jobs s)"
      "s' = s\<lparr>jobs := (jobs s)\<lparr>buf := buf (jobs s) @
              [\<lparr>Job.FilePath = filepath, Job.Word = FileProcessor.Word fp\<rparr>]\<rparr>,
            disp := Feeding rest\<rparr>"
  | (Fed) "disp s = Feeding []" "s' = s\<lparr>disp := ClosingJobs\<rparr>"
  | (CloseJobs) "disp s = ClosingJobs"
      "s' = s\<lparr>jobs := (jobs s)\<lparr>closed := True\<rparr>, disp := Waiting\<rparr>"
  | (Wait) "disp s = Waiting" "wg s = 0" "s' = s\<lparr>disp := ClosingResults\<rparr>"
  | (CloseResults) "disp s = ClosingResults"
      "s' = s\<lparr>results := (results s)\<lparr>closed := True\<rparr>, disp := Returned\<rparr>"
  using assms unfolding ProcessFiles_step_def
  by (auto split: dispatcher.splits list.splits if_splits)

lemma Worker_step_cases [consumes 1, case_names Receive Drained OpenFailed Opened ScanDone ScanFailed ScanCancelled ScanLine Publish]:
  assumes "Worker_step fs s w = Some (w', s')"
  obtains
    (Receive) job rest where "w = Selecting" "buf (jobs s) = job # rest"
      "w' = Opening job" "s' = s\<lparr>jobs := (jobs s)\<lparr>buf := rest\<rparr>\<rparr>"
  | (Drained) "w = Selecting" "buf (jobs s) = []" "closed (jobs s)"
      "w' = Exited" "s' = s\<lparr>wg := wg s - 1\<rparr>"
  | (OpenFailed) job err where "w = Opening job" "fs (Job.FilePath job) = Inl err"
      "w' = Publishing job \<lparr>Result.FilePath = Job.FilePath job, WordCount = 0, Error = Some err\<rparr>"
      "s' = s"
  | (Opened) job opened where "w = Opening job" "fs (Job.FilePath job) = Inr opened"
      "w' = Scanning job (tokens opened) (scan_err opened) 0" "s' = s"
  | (ScanDone) job wordCount where "w = Scanning job [] None wordCount"
      "w' = Publishing job \<lparr>Result.FilePath = Job.FilePath job, WordCount = wordCount, Error = None\<rparr>"
      "s' = s"
  | (ScanFailed) job e wordCount where "w = Scanning job [] (Some e) wordCount"
      "w' = Publishing job \<lparr>Result.FilePath = Job.FilePath job, WordCount = 0, Error = Some e\<rparr>"
      "s' = s"
  | (ScanCancelled) job line rest err wordCount e where "w = Scanning job (line # rest) err wordCount"
      "ctx_err s = Some e"
      "w' = Publishing job \<lparr>Result.FilePath = Job.FilePath job, WordCount = 0, Error = Some e\<rparr>"
      "s' = s"
  | (ScanLine) job line rest err wordCount where "w = Scanning job (line # rest) err wordCount"
      "ctx_err s = None"
      "w' = Scanning job rest err (wordCount + of_nat (Count line (Job.Word job)))" "s' = s"
  | (Publish) job result where "w = Publishing job result"
      "length (buf (results s)) < cap (results s)" "w' = Selecting"
      "s' = s\<lparr>results := (results s)\<lparr>buf := buf (results s) @ [result]\<rparr>\<rparr>"
  using assms unfolding Worker_step_def
  by (auto split: worker.splits list.splits if_splits sum.splits option.splits)

lemma step_cases [consumes 1, case_names Dispatch Work Quit Cancel]:
  assumes "step fp fs a s = Some s'"
  obtains
    (Dispatch) "a = Dispatch" "ProcessFiles_step fp s = Some s'"
  | (Work) k w' s1 where "a = Work k" "k < length (workers s)"
      "Worker_step fs s (workers s ! k) = Some (w', s1)"
      "s' = s1\<lparr>workers := (workers s1)[k := w']\<rparr>"
  | (Quit) k e where "a = Quit k" "k < length (workers s)" "workers s ! k = Selecting"
      "ctx_err s = Some e"
      "s' = s\<lparr>wg := wg s - 1, printed := printed s @ [ShuttingDown],
              workers := (workers s)[k := Exited]\<rparr>"
  | (Cancel) e where "a = Cancel e" "ctx_err s = None" "s' = s\<lparr>ctx_err := Some e\<rparr>"
  using assms unfolding step_def set_worker_def Worker_done_def
  by (auto split: action.splits if_splits option.splits worker.splits)

lemma run_invariant:
  assumes "run fp fs sched s0 = Some s" and "P s0"
    and "\<And>a s s'. P s \<Longrightarrow> step fp fs a s = Some s' \<Longrightarrow> P s'"
  shows "P s"
  using assms(1,2)
proof (induction sched arbitrary: s0)
  case Nil
  then show ?case by simp
next
  case (Cons a sched)
  from Cons.prems(1) obtain s1 where s1: "step fp fs a s0 = Some s1" "run fp fs sched s1 = Some s"
    by (auto split: option.splits)
  from assms(3) [OF Cons.prems(2) s1(1)] have "P s1" .
  with Cons.IH s1(2) show ?case by blast
qed

subsection \<open>Lists of workers\<close>

lemma in_flight_update:
  "k < length ws \<Longrightarrow>
   in_flight (ws[k := w]) + worker_jobs (ws ! k) = in_flight ws + worker_jobs w"
  unfolding in_flight_def
proof (induction ws arbitrary: k)
  case Nil
  then show ?case by simp
next
  case (Cons a ws)
  then show ?case by (cases k) (auto simp: ac_simps)
qed

lemma in_flight_snoc: "in_flight (ws @ [w]) = in_flight ws + worker_jobs w"
  by (simp add: in_flight_def)

lemma live_update:
  "k < length ws \<Longrightarrow> live (ws[k := w]) + alive (ws ! k) = live ws + alive w"
  unfolding live_def
proof (induction ws arbitrary: k)
  case Nil
  then show ?case by simp
next
  case (Cons a ws)
  then show ?case by (cases k) auto
qed

lemma live_snoc: "live (ws @ [w]) = live ws + alive w"
  by (simp add: live_def)

lemma alive_0_iff: "alive w = 0 \<longleftrightarrow> w = Exited"
  by (cases w) auto

lemma live_0_iff: "live ws = 0 \<longleftrightarrow> (\<forall>w\<in>set ws. w = Exited)"
  unfolding live_def by (induction ws) (auto simp: alive_0_iff)

lemma live_0_nth: "live ws = 0 \<Longrightarrow> k < length ws \<Longrightarrow> ws ! k = Exited"
  by (simp add: live_0_iff)

lemma in_flight_Exited: "\<forall>w\<in>set ws. w = Exited \<Longrightarrow> in_flight ws = {#}"
  unfolding in_flight_def by (induction ws) auto

subsection \<open>The phases of ProcessFiles\<close>

lemma phase_inv_init: "phase_inv fp (ProcessFiles_init fp ctx)"
  by (simp add: phase_inv_def ProcessFiles_init_def live_def)

lemma phase_inv_step:
  assumes inv: "phase_inv fp s" and st: "step fp fs a s = Some s'"
  shows "phase_inv fp s'"
  using st
proof (cases rule: step_cases)
  case Dispatch
  from Dispatch(2) show ?thesis
    using inv by (cases rule: ProcessFiles_step_cases) (auto simp: phase_inv_def live_snoc)
next
  case (Work k w' s1)
  have upd: "live ((workers s)[k := w']) + alive (workers s ! k) = live (workers s) + alive w'"
    using Work(2) by (rule live_update)
  have ex: "live (workers s) = 0 \<Longrightarrow> workers s ! k = Exited"
    using Work(2) by (simp add: live_0_nth)
  from Work(3) show ?thesis
    using inv upd ex unfolding Work(4)
    by (cases rule: Worker_step_cases) (auto simp: phase_inv_def)
next
  case (Quit k e)
  have upd: "live ((workers s)[k := Exited]) + alive (workers s ! k) = live (workers s) + alive Exited"
    using Quit(2) by (rule live_update)
  have ex: "live (workers s) = 0 \<Longrightarrow> workers s ! k = Exited"
    using Quit(2) by (simp add: live_0_nth)
  show ?thesis
    using inv upd ex Quit(3) unfolding Quit(5)
    by (auto simp: phase_inv_def)
next
  case (Cancel e)
  with inv show ?thesis by (simp add: phase_inv_def)
qed

subsection \<open>The job queue holds the jobs in the order of the file list\<close>

lemma queue_inv_init: "queue_inv fp (ProcessFiles_init fp ctx)"
  by (simp add: queue_inv_def ProcessFiles_init_def)

lemma queue_inv_step:
  assumes inv: "queue_inv fp s" and st: "step fp fs a s = Some s'"
  shows "queue_inv fp s'"
  using st
proof (cases rule: step_cases)
  case Dispatch
  from Dispatch(2) show ?thesis
    using inv by (cases rule: ProcessFiles_step_cases) (auto simp: queue_inv_def Job_for_def)
next
  case (Work k w' s1)
  from Work(3) show ?thesis
  proof (cases rule: Worker_step_cases)
    case (Receive job rest)
    from inv obtain taken where
      "map (Job_for fp) (Files fp) = taken @ buf (jobs s) @ map (Job_for fp) (unsent fp (disp s))"
      by (auto simp: queue_inv_def)
    with Receive(2) have
      "map (Job_for fp) (Files fp) = (taken @ [job]) @ rest @ map (Job_for fp) (unsent fp (disp s))"
      by simp
    then show ?thesis unfolding Work(4) Receive(4) queue_inv_def by (intro exI) simp
  qed (use inv in \<open>simp_all add: queue_inv_def Work(4)\<close>)
next
  case (Quit k e)
  with inv show ?thesis by (simp add: queue_inv_def)
next
  case (Cancel e)
  with inv show ?thesis by (simp add: queue_inv_def)
qed

lemma queue_inv_Word:
  assumes "queue_inv fp s" and "job \<in> set (buf (jobs s))"
  shows "Job.Word job = FileProcessor.Word fp"
proof -
  from assms(1) obtain taken where
    "map (Job_for fp) (Files fp) = taken @ buf (jobs s) @ map (Job_for fp) (unsent fp (disp s))"
    by (auto simp: queue_inv_def)
  then have "set (buf (jobs s)) \<subseteq> set (map (Job_for fp) (Files fp))" by auto
  with assms(2) show ?thesis by (auto simp: Job_for_def)
qed

lemma queue_inv_length:
  assumes "queue_inv fp s"
  shows "length (buf (jobs s)) + length (unsent fp (disp s)) \<le> length (Files fp)"
proof -
  from assms obtain taken where
    "map (Job_for fp) (Files fp) = taken @ buf (jobs s) @ map (Job_for fp) (unsent fp (disp s))"
    by (auto simp: queue_inv_def)
  then have "length (map (Job_for fp) (Files fp))
      = length (taken @ buf (jobs s) @ map (Job_for fp) (unsent fp (disp s)))" by simp
  then show ?thesis by simp
qed

subsection \<open>What the workers hold and publish\<close>

lemma CountWord_open_failed:
  "fs (Job.FilePath job) = Inl err \<Longrightarrow>
   CountWord fs ctx job = \<lparr>Result.FilePath = Job.FilePath job, WordCount = 0, Error = Some err\<rparr>"
  by (simp add: CountWord_def)

lemma CountWord_scan_failed:
  assumes "fs (Job.FilePath job) = Inr opened" and "scan_err opened = Some err"
    and "\<forall>k < length (tokens opened). ctx k = None"
  shows "CountWord fs ctx job =
    \<lparr>Result.FilePath = Job.FilePath job, WordCount = 0, Error = Some err\<rparr>"
  using assms scan_lines_clean [of "tokens opened" ctx 0 "Job.Word job" 0]
  by (simp add: CountWord_def)

lemma Job_for_eq:
  "Job.Word job = FileProcessor.Word fp \<Longrightarrow> Job_for fp (Job.FilePath job) = job"
  by (simp add: Job_for_def)

lemma outcome_mono: "outcome fs None job r \<Longrightarrow> outcome fs c job r"
  by (simp add: outcome_def)

lemma worker_ok_mono: "worker_ok fp fs None w \<Longrightarrow> worker_ok fp fs c w"
  by (cases w) (auto intro: outcome_mono)

lemma workers_inv_init: "workers_inv fp fs (ProcessFiles_init fp ctx)"
  by (simp add: workers_inv_def ProcessFiles_init_def)

lemma workers_inv_update:
  assumes "workers_inv fp fs s" and "worker_ok fp fs (ctx_err s) w"
  shows "workers_inv fp fs (s\<lparr>workers := (workers s)[k := w]\<rparr>)"
proof -
  have "set ((workers s)[k := w]) \<subseteq> insert w (set (workers s))"
    by (rule set_update_subset_insert)
  with assms show ?thesis by (auto simp: workers_inv_def)
qed

lemma Worker_step_ok:
  assumes ok: "worker_ok fp fs (ctx_err s) w" and q: "queue_inv fp s"
    and st: "Worker_step fs s w = Some (w', s1)"
  shows "worker_ok fp fs (ctx_err s) w'"
  using st
proof (cases rule: Worker_step_cases)
  case (Receive job rest)
  then have "job \<in> set (buf (jobs s))" by simp
  with q have "Job.Word job = FileProcessor.Word fp" by (rule queue_inv_Word)
  with Receive show ?thesis by simp
next
  case Drained
  then show ?thesis by simp
next
  case (OpenFailed job err)
  with ok show ?thesis by (simp add: outcome_def CountWord_open_failed)
next
  case (Opened job opened)
  with ok show ?thesis by simp
next
  case (ScanDone job wordCount)
  with ok obtain opened where o: "fs (Job.FilePath job) = Inr opened" "scan_err opened = None"
    "wordCount = of_nat (counted (Job.Word job) (tokens opened))"
    by (auto split: sum.splits)
  have "CountWord fs never_done job =
      \<lparr>Result.FilePath = Job.FilePath job,
       WordCount = of_nat (counted (Job.Word job) (tokens opened)), Error = None\<rparr>"
    using o(1,2) by (intro CountWord_clean) (simp_all add: never_done_def)
  with ScanDone ok o(3) show ?thesis by (simp add: outcome_def)
next
  case (ScanFailed job e wordCount)
  with ok obtain opened where o: "fs (Job.FilePath job) = Inr opened" "scan_err opened = Some e"
    by (auto split: sum.splits)
  have "CountWord fs never_done job =
      \<lparr>Result.FilePath = Job.FilePath job, WordCount = 0, Error = Some e\<rparr>"
    using o by (intro CountWord_scan_failed) (simp_all add: never_done_def)
  with ScanFailed ok show ?thesis by (simp add: outcome_def)
next
  case (ScanCancelled job line rest err wordCount e)
  with ok show ?thesis by (simp add: outcome_def)
next
  case (ScanLine job line rest err wordCount)
  with ok obtain opened seen where o: "fs (Job.FilePath job) = Inr opened" "err = scan_err opened"
    "tokens opened = seen @ line # rest" "wordCount = of_nat (counted (Job.Word job) seen)"
    by (auto split: sum.splits)
  have "tokens opened = (seen @ [line]) @ rest" using o(3) by simp
  moreover have "wordCount + of_nat (Count line (Job.Word job))
      = of_nat (counted (Job.Word job) (seen @ [line]))"
    using o(4) by (simp add: counted_append)
  ultimately show ?thesis using ScanLine ok o(1,2) by (auto simp del: append_assoc)
next
  case (Publish job result)
  then show ?thesis by simp
qed

lemma workers_inv_step:
  assumes inv: "workers_inv fp fs s" and q: "queue_inv fp s"
    and st: "step fp fs a s = Some s'"
  shows "workers_inv fp fs s'"
  using st
proof (cases rule: step_cases)
  case Dispatch
  from Dispatch(2) show ?thesis
    using inv by (cases rule: ProcessFiles_step_cases) (auto simp: workers_inv_def)
next
  case (Work k w' s1)
  from inv Work(2) have ok: "worker_ok fp fs (ctx_err s) (workers s ! k)"
    by (simp add: workers_inv_def)
  from Worker_step_ok [OF ok q Work(3)] have ok': "worker_ok fp fs (ctx_err s) w'" .
  have same: "ctx_err s1 = ctx_err s" "workers s1 = workers s"
    using Work(3) by (cases rule: Worker_step_cases; simp)+
  have "workers_inv fp fs s1"
    using Work(3)
  proof (cases rule: Worker_step_cases)
    case (Publish job result)
    with ok have "outcome fs (ctx_err s) (Job_for fp (Result.FilePath result)) result"
      by (simp add: Job_for_eq)
    with inv Publish show ?thesis by (auto simp: workers_inv_def)
  qed (use inv in \<open>simp_all add: workers_inv_def\<close>)
  from workers_inv_update [OF this, of w' k] ok' same show ?thesis
    unfolding Work(4) by simp
next
  case (Quit k e)
  have "workers_inv fp fs (s\<lparr>workers := (workers s)[k := Exited]\<rparr>)"
    using inv by (rule workers_inv_update) simp
  then show ?thesis unfolding Quit(5) by (simp add: workers_inv_def)
next
  case (Cancel e)
  with inv show ?thesis
    by (auto simp: workers_inv_def intro: worker_ok_mono outcome_mono)
qed

subsection \<open>No job is lost or duplicated\<close>

lemma conservation_init: "conservation fp (ProcessFiles_init fp ctx)"
  by (simp add: conservation_def ProcessFiles_init_def in_flight_def)

lemma conservation_step:
  assumes inv: "conservation fp s" and w: "workers_inv fp fs s"
    and st: "step fp fs a s = Some s'"
  shows "conservation fp s'"
  using st
proof (cases rule: step_cases)
  case Dispatch
  from Dispatch(2) show ?thesis
    using inv
    by (cases rule: ProcessFiles_step_cases)
      (auto simp: conservation_def in_flight_snoc Job_for_def)
next
  case (Work k w' s1)
  have upd: "in_flight ((workers s)[k := w']) + worker_jobs (workers s ! k)
      = in_flight (workers s) + worker_jobs w'"
    using Work(2) by (rule in_flight_update)
  from w Work(2) have ok: "worker_ok fp fs (ctx_err s) (workers s ! k)"
    by (simp add: workers_inv_def)
  from Work(3) show ?thesis
  proof (cases rule: Worker_step_cases)
    case (Receive job rest)
    with upd have "in_flight ((workers s)[k := w']) = in_flight (workers s) + {#job#}" by simp
    with inv Receive show ?thesis unfolding Work(4) by (simp add: conservation_def)
  next
    case (Publish job result)
    with ok have "Job_for fp (Result.FilePath result) = job" by (simp add: Job_for_eq)
    moreover from Publish upd have "in_flight (workers s) = in_flight ((workers s)[k := w']) + {#job#}"
      by simp
    ultimately show ?thesis using inv Publish(4) unfolding Work(4)
      by (simp add: conservation_def)
  qed (use inv upd in \<open>simp_all add: conservation_def Work(4)\<close>)
next
  case (Quit k e)
  have "in_flight ((workers s)[k := Exited]) + worker_jobs (workers s ! k)
      = in_flight (workers s) + worker_jobs Exited"
    using Quit(2) by (rule in_flight_update)
  with inv Quit show ?thesis by (simp add: conservation_def)
next
  case (Cancel e)
  with inv show ?thesis by (simp add: conservation_def)
qed

subsection \<open>Without cancellation a worker leaves only when the queue is closed and empty\<close>

lemma drain_inv_init: "drain_inv (ProcessFiles_init fp ctx)"
  by (simp add: drain_inv_def ProcessFiles_init_def)

lemma drain_inv_step:
  assumes inv: "drain_inv s" and p: "phase_inv fp s"
    and st: "step fp fs a s = Some s'"
  shows "drain_inv s'"
  using st
proof (cases rule: step_cases)
  case Dispatch
  from Dispatch(2) show ?thesis
    using inv p by (cases rule: ProcessFiles_step_cases) (auto simp: drain_inv_def phase_inv_def)
next
  case (Work k w' s1)
  have sub: "set ((workers s)[k := w']) \<subseteq> insert w' (set (workers s))"
    by (rule set_update_subset_insert)
  from Work(3) show ?thesis
    using inv sub unfolding Work(4)
    by (cases rule: Worker_step_cases) (auto simp: drain_inv_def)
next
  case (Quit k e)
  then show ?thesis by (simp add: drain_inv_def)
next
  case (Cancel e)
  then show ?thesis by (simp add: drain_inv_def)
qed

subsection \<open>The invariant holds in every state of every run\<close>

lemma invariant_init: "invariant fp fs (ProcessFiles_init fp ctx)"
  by (simp add: invariant_def phase_inv_init queue_inv_init workers_inv_init conservation_init
      drain_inv_init)

lemma invariant_step: "invariant fp fs s \<Longrightarrow> step fp fs a s = Some s' \<Longrightarrow> invariant fp fs s'"
  unfolding invariant_def
  by (blast intro: phase_inv_step queue_inv_step workers_inv_step conservation_step drain_inv_step)

lemma invariant_run:
  assumes "run fp fs sched (ProcessFiles_init fp ctx) = Some s"
  shows "invariant fp fs s"
  using assms invariant_init invariant_step by (rule run_invariant)

subsection \<open>When ProcessFiles has returned\<close>

lemma returned_accounts:
  assumes inv: "invariant fp fs s" and ret: "disp s = Returned"
  shows "mset (map (\<lambda>r. Job_for fp (Result.FilePath r)) (buf (results s))) + mset (buf (jobs s))
       = mset (map (Job_for fp) (Files fp))"
    and "\<forall>w\<in>set (workers s). w = Exited"
proof -
  from inv ret have "live (workers s) = 0" by (simp add: invariant_def phase_inv_def)
  then show ex: "\<forall>w\<in>set (workers s). w = Exited" by (simp add: live_0_iff)
  then have "in_flight (workers s) = {#}" by (rule in_flight_Exited)
  with inv ret show "mset (map (\<lambda>r. Job_for fp (Result.FilePath r)) (buf (results s)))
      + mset (buf (jobs s)) = mset (map (Job_for fp) (Files fp))"
    by (simp add: invariant_def conservation_def add.commute)
qed

lemma returned_results:
  assumes inv: "invariant fp fs s" and ret: "disp s = Returned"
    and nc: "ctx_err s = None" and wc: "1 \<le> WorkerCount fp"
  shows "buf (jobs s) = []"
    and "mset (buf (results s))
       = mset (map (\<lambda>filepath. CountWord fs never_done (Job_for fp filepath)) (Files fp))"
proof -
  from inv ret have len: "length (workers s) = nat (WorkerCount fp)"
    by (simp add: invariant_def phase_inv_def)
  with wc have "workers s \<noteq> []" by auto
  then obtain w where w: "w \<in> set (workers s)" by (cases "workers s") auto
  with returned_accounts(2) [OF inv ret] have "Exited \<in> set (workers s)" by auto
  with inv nc show empty: "buf (jobs s) = []" by (simp add: invariant_def drain_inv_def)
  let ?J = "\<lambda>r. Job_for fp (Result.FilePath r)"
  have each: "r = CountWord fs never_done (?J r)" if "r \<in> set (buf (results s))" for r
    using inv nc that by (auto simp: invariant_def workers_inv_def outcome_def)
  then have "map (\<lambda>r. CountWord fs never_done (?J r)) (buf (results s)) = buf (results s)"
    by (simp add: map_idI)
  then have "mset (buf (results s))
      = image_mset (CountWord fs never_done) (mset (map ?J (buf (results s))))"
    by (metis (no_types, lifting) map_map mset_map comp_apply map_eq_conv)
  also have "mset (map ?J (buf (results s))) = mset (map (Job_for fp) (Files fp))"
    using returned_accounts(1) [OF inv ret] empty by simp
  finally show "mset (buf (results s))
      = mset (map (\<lambda>filepath. CountWord fs never_done (Job_for fp filepath)) (Files fp))"
    by (simp add: image_mset.compositionality comp_def)
qed

subsection \<open>No run is stuck before ProcessFiles has returned\<close>

lemma worker_jobs_in_flight: "w \<in> set ws \<Longrightarrow> worker_jobs w \<subseteq># in_flight ws"
  unfolding in_flight_def
proof (induction ws)
  case Nil
  then show ?case by simp
next
  case (Cons a ws)
  then show ?case by (auto intro: subset_mset.add_increasing)
qed

lemma publishing_room:
  assumes inv: "invariant fp fs s" and k: "k < length (workers s)"
    and p: "workers s ! k = Publishing job result"
  shows "length (buf (results s)) < cap (results s)"
proof -
  from k p have "worker_jobs (Publishing job result) \<subseteq># in_flight (workers s)"
    by (metis nth_mem worker_jobs_in_flight)
  then have "size (worker_jobs (Publishing job result)) \<le> size (in_flight (workers s))"
    by (rule size_mset_mono)
  then have one: "1 \<le> size (in_flight (workers s))" by simp
  from inv have "size (mset (map (Job_for fp) (unsent fp (disp s))) + mset (buf (jobs s))
        + in_flight (workers s)
        + mset (map (\<lambda>r. Job_for fp (Result.FilePath r)) (buf (results s))))
      = size (mset (map (Job_for fp) (Files fp)))"
    by (simp add: invariant_def conservation_def)
  then have "size (in_flight (workers s)) + length (buf (results s)) \<le> length (Files fp)"
    by simp
  with one inv show ?thesis by (simp add: invariant_def phase_inv_def)
qed

lemma live_pos_nth: "0 < live ws \<Longrightarrow> \<exists>k < length ws. ws ! k \<noteq> Exited"
proof -
  assume "0 < live ws"
  then have "\<not> (\<forall>w\<in>set ws. w = Exited)" using live_0_iff [of ws] by simp
  then obtain w where "w \<in> set ws" "w \<noteq> Exited" by blast
  then show ?thesis by (metis in_set_conv_nth)
qed

lemma worker_can_step:
  assumes inv: "invariant fp fs s" and k: "k < length (workers s)"
    and w: "workers s ! k \<noteq> Exited" and closed: "closed (jobs s)"
  shows "\<exists>s'. step fp fs (Work k) s = Some s'"
proof (cases "workers s ! k")
  case Selecting
  with k closed show ?thesis
    by (auto simp: step_def set_worker_def Worker_step_def split: list.splits)
next
  case (Opening job)
  with k show ?thesis
    by (auto simp: step_def set_worker_def Worker_step_def split: sum.splits)
next
  case (Scanning job rest err wordCount)
  with k show ?thesis
    by (auto simp: step_def set_worker_def Worker_step_def split: list.splits option.splits)
next
  case (Publishing job result)
  with publishing_room [OF inv k Publishing] k show ?thesis
    by (auto simp: step_def set_worker_def Worker_step_def)
next
  case Exited
  with w show ?thesis by simp
qed

lemma not_stuck:
  assumes inv: "invariant fp fs s" and nr: "disp s \<noteq> Returned"
  shows "\<exists>a s'. \<not> is_Cancel a \<and> step fp fs a s = Some s'"
proof (cases "disp s")
  case (Spawning i)
  then have "\<exists>s'. step fp fs Dispatch s = Some s'"
    by (simp add: step_def ProcessFiles_step_def)
  then show ?thesis by (metis is_Cancel.simps(2))
next
  case (Feeding rest)
  have "\<exists>s'. step fp fs Dispatch s = Some s'"
  proof (cases rest)
    case Nil
    with Feeding show ?thesis by (simp add: step_def ProcessFiles_step_def)
  next
    case (Cons filepath rest')
    from inv have "length (buf (jobs s)) + length (unsent fp (disp s)) \<le> length (Files fp)"
      by (simp add: invariant_def queue_inv_length)
    with Feeding Cons inv have "length (buf (jobs s)) < cap (jobs s)"
      by (simp add: invariant_def phase_inv_def)
    with Feeding Cons show ?thesis by (simp add: step_def ProcessFiles_step_def)
  qed
  then show ?thesis by (metis is_Cancel.simps(2))
next
  case ClosingJobs
  then have "\<exists>s'. step fp fs Dispatch s = Some s'"
    by (simp add: step_def ProcessFiles_step_def)
  then show ?thesis by (metis is_Cancel.simps(2))
next
  case Waiting
  show ?thesis
  proof (cases "wg s = 0")
    case True
    with Waiting have "\<exists>s'. step fp fs Dispatch s = Some s'"
      by (simp add: step_def ProcessFiles_step_def)
    then show ?thesis by (metis is_Cancel.simps(2))
  next
    case False
    with inv have "0 < live (workers s)" by (simp add: invariant_def phase_inv_def)
    then obtain k where k: "k < length (workers s)" "workers s ! k \<noteq> Exited"
      using live_pos_nth by blast
    from inv Waiting have "closed (jobs s)" by (simp add: invariant_def phase_inv_def)
    from worker_can_step [OF inv k this] show ?thesis by (metis is_Cancel.simps(3))
  qed
next
  case ClosingResults
  then have "\<exists>s'. step fp fs Dispatch s = Some s'"
    by (simp add: step_def ProcessFiles_step_def)
  then show ?thesis by (metis is_Cancel.simps(2))
next
  case Returned
  with nr show ?thesis by simp
qed

subsection \<open>Every run ends\<close>

lemma worker_cost_update:
  "k < length ws \<Longrightarrow>
   (\<Sum>w\<leftarrow>ws[k := w']. worker_cost fs w) + worker_cost fs (ws ! k)
     = (\<Sum>w\<leftarrow>ws. worker_cost fs w) + worker_cost fs w'"
proof (induction ws arbitrary: k)
  case Nil
  then show ?case by simp
next
  case (Cons a ws)
  then show ?case by (cases k) auto
qed

lemma step_decreases:
  assumes st: "step fp fs a s = Some s'" and nc: "\<not> is_Cancel a"
  shows "steps_left fp fs s' < steps_left fp fs s"
  using st
proof (cases rule: step_cases)
  case Dispatch
  from Dispatch(2) show ?thesis
    by (cases rule: ProcessFiles_step_cases) (auto simp: steps_left_def Job_for_def)
next
  case (Work k w' s1)
  have upd: "(\<Sum>w\<leftarrow>(workers s)[k := w']. worker_cost fs w) + worker_cost fs (workers s ! k)
      = (\<Sum>w\<leftarrow>workers s. worker_cost fs w) + worker_cost fs w'"
    using Work(2) by (rule worker_cost_update)
  from Work(3) show ?thesis
    using upd unfolding Work(4)
    by (cases rule: Worker_step_cases) (auto simp: steps_left_def job_cost_def)
next
  case (Quit k e)
  have "(\<Sum>w\<leftarrow>(workers s)[k := Exited]. worker_cost fs w) + worker_cost fs (workers s ! k)
      = (\<Sum>w\<leftarrow>workers s. worker_cost fs w) + worker_cost fs Exited"
    using Quit(2) by (rule worker_cost_update)
  with Quit show ?thesis by (simp add: steps_left_def)
next
  case (Cancel e)
  with nc show ?thesis by simp
qed

lemma step_Cancel:
  assumes "step fp fs a s = Some s'" and "is_Cancel a"
  shows "ctx_err s = None \<and> ctx_err s' \<noteq> None \<and> steps_left fp fs s' = steps_left fp fs s"
  using assms by (cases rule: step_cases) (auto simp: steps_left_def)

lemma step_ctx_err:
  assumes st: "step fp fs a s = Some s'" and c: "ctx_err s \<noteq> None"
  shows "ctx_err s' \<noteq> None"
  using st
proof (cases rule: step_cases)
  case Dispatch
  from Dispatch(2) c show ?thesis by (cases rule: ProcessFiles_step_cases) auto
next
  case (Work k w' s1)
  from Work(3) c show ?thesis unfolding Work(4) by (cases rule: Worker_step_cases) auto
next
  case (Quit k e)
  then show ?thesis by simp
next
  case (Cancel e)
  then show ?thesis by simp
qed

text \<open>
  A run of \<open>n\<close> steps that are not cancellations uses up \<open>n\<close> of the steps left, and
  a context is cancelled at most once.
\<close>

lemma run_length:
  "run fp fs sched s0 = Some s \<Longrightarrow>
   length sched + steps_left fp fs s
     \<le> steps_left fp fs s0 + (if ctx_err s0 = None \<and> ctx_err s \<noteq> None then 1 else 0)
   \<and> (ctx_err s0 \<noteq> None \<longrightarrow> ctx_err s \<noteq> None)"
proof (induction sched arbitrary: s0)
  case Nil
  then show ?case by simp
next
  case (Cons a sched)
  from Cons.prems obtain s1 where s1: "step fp fs a s0 = Some s1" "run fp fs sched s1 = Some s"
    by (auto split: option.splits)
  note ih = Cons.IH [OF s1(2)]
  show ?case
  proof (cases "is_Cancel a")
    case True
    from step_Cancel [OF s1(1) True] ih show ?thesis by auto
  next
    case False
    from step_decreases [OF s1(1) False] step_ctx_err [OF s1(1)] ih show ?thesis
      by (auto split: if_splits)
  qed
qed

lemma steps_left_init:
  "steps_left fp fs (ProcessFiles_init fp ctx)
     = 2 * nat (WorkerCount fp) + length (Files fp) + 5
       + (\<Sum>filepath\<leftarrow>Files fp. job_cost fs (Job_for fp filepath))"
  by (simp add: steps_left_def ProcessFiles_init_def)

text \<open>From every state of a run, ProcessFiles can return, with no cancellation.\<close>

lemma run_completes:
  "invariant fp fs s \<Longrightarrow>
   \<exists>sched s'. \<not> list_ex is_Cancel sched \<and> run fp fs sched s = Some s' \<and> disp s' = Returned"
proof (induction "steps_left fp fs s" arbitrary: s rule: less_induct)
  case less
  show ?case
  proof (cases "disp s = Returned")
    case True
    then have "\<not> list_ex is_Cancel [] \<and> run fp fs [] s = Some s \<and> disp s = Returned" by simp
    then show ?thesis by blast
  next
    case False
    from not_stuck [OF less.prems False] obtain a s1 where
      a: "\<not> is_Cancel a" "step fp fs a s = Some s1" by blast
    from step_decreases [OF a(2,1)] have "steps_left fp fs s1 < steps_left fp fs s" .
    moreover from invariant_step [OF less.prems a(2)] have "invariant fp fs s1" .
    ultimately obtain sched s' where
      r: "\<not> list_ex is_Cancel sched" "run fp fs sched s1 = Some s'" "disp s' = Returned"
      using less.hyps by blast
    with a have "\<not> list_ex is_Cancel (a # sched) \<and> run fp fs (a # sched) s = Some s'
        \<and> disp s' = Returned"
      by simp
    then show ?thesis by blast
  qed
qed

subsection \<open>LoadConfig and main\<close>

lemma LoadConfig_eq:
  "LoadConfig v =
     (\<lparr>Files = (if GetString_files v \<noteq> [] then Split_comma (GetString_files v)
                else GetStringSlice_files v),
       Word = GetString_word v, WorkerCount = GetInt_workerCount v\<rparr>,
      None,
      (case ReadInConfig v of Some err \<Rightarrow> [ConfigReadError err] | None \<Rightarrow> [])
      @ [EnvFiles (if GetString_files v \<noteq> [] then Split_comma (GetString_files v)
                   else GetStringSlice_files v),
         WordLine (GetString_word v), WorkerLine (GetInt_workerCount v)])"
  by (simp add: LoadConfig_def NewFileProcessor_def Let_def)

lemma printed_run:
  assumes "run fp fs sched (ProcessFiles_init fp ctx) = Some s"
  shows "set (printed s) \<subseteq> {ShuttingDown}"
  using assms
proof (rule run_invariant)
  show "set (printed (ProcessFiles_init fp ctx)) \<subseteq> {ShuttingDown}"
    by (simp add: ProcessFiles_init_def)
next
  fix a s s'
  assume P: "set (printed s) \<subseteq> {ShuttingDown}" and st: "step fp fs a s = Some s'"
  from st show "set (printed s') \<subseteq> {ShuttingDown}"
  proof (cases rule: step_cases)
    case Dispatch
    from Dispatch(2) P show ?thesis by (cases rule: ProcessFiles_step_cases) auto
  next
    case (Work k w' s1)
    from Work(3) P show ?thesis unfolding Work(4) by (cases rule: Worker_step_cases) auto
  next
    case (Quit k e)
    with P show ?thesis by auto
  next
    case (Cancel e)
    with P show ?thesis by auto
  qed
qed

lemma print_result_no_ConfigFailure: "ConfigFailure e \<notin> set (print_result r)"
  by (simp add: print_result_def split: option.splits)

subsection \<open>A run without workers\<close>

lemma phase_inv_no_workers:
  assumes "phase_inv fp s" and "WorkerCount fp \<le> 0"
  shows "workers s = []"
proof -
  from assms have "length (workers s) = 0"
    by (cases "disp s") (auto simp: phase_inv_def)
  then show ?thesis by simp
qed

lemma no_workers_run:
  assumes r: "run fp fs sched (ProcessFiles_init fp ctx) = Some s" and wc: "WorkerCount fp \<le> 0"
  shows "workers s = []" and "buf (results s) = []"
proof -
  have "invariant fp fs s \<and> buf (results s) = []"
    using r
  proof (rule run_invariant)
    show "invariant fp fs (ProcessFiles_init fp ctx) \<and> buf (results (ProcessFiles_init fp ctx)) = []"
      by (simp add: invariant_init) (simp add: ProcessFiles_init_def)
  next
    fix a s s'
    assume P: "invariant fp fs s \<and> buf (results s) = []" and st: "step fp fs a s = Some s'"
    then have "phase_inv fp s" by (simp add: invariant_def)
    then have w: "workers s = []" using wc by (rule phase_inv_no_workers)
    from st have "buf (results s') = []"
    proof (cases rule: step_cases)
      case Dispatch
      from Dispatch(2) P show ?thesis by (cases rule: ProcessFiles_step_cases) auto
    next
      case (Work k w' s1)
      with w show ?thesis by simp
    next
      case (Quit k e)
      with w show ?thesis by simp
    next
      case (Cancel e)
      with P show ?thesis by simp
    qed
    with P st show "invariant fp fs s' \<and> buf (results s') = []"
      by (auto intro: invariant_step)
  qed
  then have "phase_inv fp s" and e: "buf (results s) = []" by (simp_all add: invariant_def)
  from this(1) wc show "workers s = []" by (rule phase_inv_no_workers)
  from e show "buf (results s) = []" .
qed

lemma returned_queue_untouched:
  assumes inv: "invariant fp fs s" and ret: "disp s = Returned" and e: "buf (results s) = []"
  shows "buf (jobs s) = map (Job_for fp) (Files fp)"
proof -
  from inv ret obtain taken where
    t: "map (Job_for fp) (Files fp) = taken @ buf (jobs s)"
    by (auto simp: invariant_def queue_inv_def)
  from returned_accounts(1) [OF inv ret] e
  have "mset (buf (jobs s)) = mset (map (Job_for fp) (Files fp))" by simp
  then have "length (buf (jobs s)) = length (map (Job_for fp) (Files fp))"
    by (rule mset_eq_length)
  with t have "taken = []" by (metis append_eq_append_conv append_Nil length_0_conv length_append add_cancel_left_left)
  with t show ?thesis by simp
qed

section \<open>Claims about CountWord\<close>

text \<open>
  C1. For a file that opens, is scanned to end-of-file without a read error and
  without the context being seen done at any poll, CountWord returns a Result with no
  error whose count is the total, over the lines of the file, of the non-overlapping
  occurrences of the target word in the line. The target word is not empty (the
  specification's word is a non-empty string). The count is a 64-bit integer: it is
  the total modulo \<open>2 ^ 64\<close>, and reads as the total itself below \<open>2 ^ 63\<close>.
\<close>

theorem CountWord_counts_occurrences:
  assumes "fs (Job.FilePath job) = Inr file"
    and "scan_err file = None"
    and "\<forall>k < length (tokens file). ctx k = None"
    and "Job.Word job \<noteq> []"
  shows "CountWord fs ctx job =
      \<lparr>Result.FilePath = Job.FilePath job,
       WordCount = of_nat (total_occurrences (Job.Word job) (tokens file)), Error = None\<rparr>
    \<and> (total_occurrences (Job.Word job) (tokens file) < 2 ^ 63 \<longrightarrow>
         sint (WordCount (CountWord fs ctx job))
           = int (total_occurrences (Job.Word job) (tokens file)))"
proof -
  have eq: "counted (Job.Word job) (tokens file) = total_occurrences (Job.Word job) (tokens file)"
    using assms(4) by (rule counted_occurrences)
  have r: "CountWord fs ctx job =
      \<lparr>Result.FilePath = Job.FilePath job,
       WordCount = of_nat (total_occurrences (Job.Word job) (tokens file)), Error = None\<rparr>"
    using CountWord_clean [of fs job "file" ctx] assms(1-3) eq by simp
  then show ?thesis by (simp add: sint_of_nat_64)
qed

theorem CountWord_counts_occurrences_witness:
  "CountWord (\<lambda>p. Inr \<lparr>tokens = [''go is fun'', ''I go home'', ''going going''], scan_err = None\<rparr>)
      never_done \<lparr>Job.FilePath = ''sample1.txt'', Job.Word = ''go''\<rparr>
     = \<lparr>Result.FilePath = ''sample1.txt'', WordCount = 4, Error = None\<rparr>
   \<and> total_occurrences ''go'' [''go is fun'', ''I go home'', ''going going''] = 4"
proof -
  let ?lines = "[''go is fun'', ''I go home'', ''going going'']"
  let ?fs = "\<lambda>p :: string. (Inr \<lparr>tokens = ?lines, scan_err = None\<rparr> :: error + scanned)"
  let ?job = "\<lparr>Job.FilePath = ''sample1.txt'', Job.Word = ''go''\<rparr>"
  have "counted ''go'' ?lines = 4" by code_simp
  then have total: "total_occurrences ''go'' ?lines = 4"
    using counted_occurrences [of "''go''" ?lines] by simp
  have "CountWord ?fs never_done ?job =
      \<lparr>Result.FilePath = Job.FilePath ?job,
       WordCount = of_nat (total_occurrences (Job.Word ?job) (tokens \<lparr>tokens = ?lines, scan_err = None\<rparr>)),
       Error = None\<rparr>"
    using CountWord_counts_occurrences [of ?fs ?job "\<lparr>tokens = ?lines, scan_err = None\<rparr>" never_done]
    by (simp add: never_done_def)
  with total show ?thesis by simp
qed

text \<open>
  C4. CountWord polls the context before each line. When the poll before line \<open>n\<close>
  (a line the file has) is the first to see the context done, with error \<open>e\<close>,
  CountWord returns at once: the Result carries \<open>e\<close> and the count 0, whatever had
  been counted in the lines before. No Result of CountWord reports a part of a
  count: whenever it carries an error, its count is 0.
\<close>

theorem CountWord_cancelled:
  assumes "fs (Job.FilePath job) = Inr file"
    and "n < length (tokens file)"
    and "\<forall>k < n. ctx k = None"
    and "ctx n = Some e"
  shows "CountWord fs ctx job =
      \<lparr>Result.FilePath = Job.FilePath job, WordCount = 0, Error = Some e\<rparr>
    \<and> (Error (CountWord fs' ctx' job') \<noteq> None \<longrightarrow> WordCount (CountWord fs' ctx' job') = 0)"
proof
  show "CountWord fs ctx job =
      \<lparr>Result.FilePath = Job.FilePath job, WordCount = 0, Error = Some e\<rparr>"
    using assms scan_lines_cancelled [of n "tokens file" ctx 0 e "Job.Word job" 0]
    by (simp add: CountWord_def)
  show "Error (CountWord fs' ctx' job') \<noteq> None \<longrightarrow> WordCount (CountWord fs' ctx' job') = 0"
    by (simp add: CountWord_def split: sum.splits option.splits)
qed

theorem CountWord_cancelled_witness:
  "CountWord (\<lambda>p. Inr \<lparr>tokens = [''go is fun'', ''I go home'', ''going going''], scan_err = None\<rparr>)
      (\<lambda>k. if k < 2 then None else Some Canceled)
      \<lparr>Job.FilePath = ''sample1.txt'', Job.Word = ''go''\<rparr>
     = \<lparr>Result.FilePath = ''sample1.txt'', WordCount = 0, Error = Some Canceled\<rparr>"
  using CountWord_cancelled [of "\<lambda>p. Inr \<lparr>tokens = [''go is fun'', ''I go home'', ''going going''], scan_err = None\<rparr>"
      "\<lparr>Job.FilePath = ''sample1.txt'', Job.Word = ''go''\<rparr>"
      "\<lparr>tokens = [''go is fun'', ''I go home'', ''going going''], scan_err = None\<rparr>"
      2 "\<lambda>k. if k < 2 then None else Some Canceled" Canceled]
  by simp

text \<open>
  C10. On every exit path of CountWord the Result carries the file path of the Job.
\<close>

theorem CountWord_keeps_FilePath: "Result.FilePath (CountWord fs ctx job) = Job.FilePath job"
  by (simp add: CountWord_def split: sum.splits option.splits)

section \<open>Claims about the pipeline\<close>

text \<open>
  C2. In every state of every run of ProcessFiles, each Job made for a file is in
  exactly one place: still to be sent, in the job queue, held by one worker, or
  answered by one Result in the result channel. No state before the return of
  ProcessFiles is stuck: some goroutine can step. From every state the run can go
  on, without a cancellation, until ProcessFiles returns, and no run is longer than
  a bound that depends on the files and the worker count only. When ProcessFiles has returned, every Job
  has either its one Result or is still in the queue, never picked up and without a
  Result; with at least one worker and no cancellation the queue is empty, there are
  as many Results as files, and the Results are those of CountWord on the Jobs of
  the file list.
\<close>

theorem one_Result_per_Job:
  assumes "run fp fs sched (ProcessFiles_init fp ctx) = Some s"
  shows "mset (map (Job_for fp) (unsent fp (disp s))) + mset (buf (jobs s))
        + in_flight (workers s)
        + mset (map (\<lambda>r. Job_for fp (Result.FilePath r)) (buf (results s)))
      = mset (map (Job_for fp) (Files fp))
    \<and> (disp s \<noteq> Returned \<longrightarrow> (\<exists>a s'. \<not> is_Cancel a \<and> step fp fs a s = Some s'))
    \<and> (\<exists>more s'. \<not> list_ex is_Cancel more \<and> run fp fs more s = Some s' \<and> disp s' = Returned)
    \<and> length sched \<le> 2 * nat (WorkerCount fp) + length (Files fp) + 6
          + (\<Sum>filepath\<leftarrow>Files fp. job_cost fs (Job_for fp filepath))
    \<and> (disp s = Returned \<longrightarrow>
          mset (map (\<lambda>r. Job_for fp (Result.FilePath r)) (buf (results s))) + mset (buf (jobs s))
            = mset (map (Job_for fp) (Files fp)))
    \<and> (disp s = Returned \<and> ctx_err s = None \<and> 1 \<le> WorkerCount fp \<longrightarrow>
          buf (jobs s) = [] \<and> length (buf (results s)) = length (Files fp) \<and>
          mset (buf (results s))
            = mset (map (\<lambda>filepath. CountWord fs never_done (Job_for fp filepath)) (Files fp)))"
proof -
  from assms have inv: "invariant fp fs s" by (rule invariant_run)
  have c0: "\<exists>a s'. \<not> is_Cancel a \<and> step fp fs a s = Some s'" if "disp s \<noteq> Returned"
    using inv that by (rule not_stuck)
  from inv have c1: "mset (map (Job_for fp) (unsent fp (disp s))) + mset (buf (jobs s))
        + in_flight (workers s)
        + mset (map (\<lambda>r. Job_for fp (Result.FilePath r)) (buf (results s)))
      = mset (map (Job_for fp) (Files fp))"
    by (simp add: invariant_def conservation_def)
  from inv have c2: "\<exists>more s'. \<not> list_ex is_Cancel more \<and> run fp fs more s = Some s'
      \<and> disp s' = Returned"
    by (rule run_completes)
  from run_length [OF assms] have "length sched \<le> steps_left fp fs (ProcessFiles_init fp ctx) + 1"
    by (auto split: if_splits)
  then have c3: "length sched \<le> 2 * nat (WorkerCount fp) + length (Files fp) + 6
      + (\<Sum>filepath\<leftarrow>Files fp. job_cost fs (Job_for fp filepath))"
    by (simp add: steps_left_init)
  have c4: "mset (map (\<lambda>r. Job_for fp (Result.FilePath r)) (buf (results s))) + mset (buf (jobs s))
      = mset (map (Job_for fp) (Files fp))" if "disp s = Returned"
    using inv that by (rule returned_accounts(1))
  have c5: "buf (jobs s) = [] \<and> length (buf (results s)) = length (Files fp) \<and>
      mset (buf (results s))
        = mset (map (\<lambda>filepath. CountWord fs never_done (Job_for fp filepath)) (Files fp))"
    if "disp s = Returned" "ctx_err s = None" "1 \<le> WorkerCount fp"
  proof -
    note r = returned_results [OF inv that]
    from r(2) have "size (mset (buf (results s)))
        = size (mset (map (\<lambda>filepath. CountWord fs never_done (Job_for fp filepath)) (Files fp)))"
      by simp
    then have "length (buf (results s)) = length (Files fp)" by simp
    with r show ?thesis by simp
  qed
  from c0 c1 c2 c3 c4 c5 show ?thesis by blast
qed

theorem one_Result_per_Job_witness:
  "map_option (\<lambda>s. (disp s, ctx_err s, buf (jobs s), buf (results s)))
    (run \<lparr>Files = [''a.txt'', ''b.txt''], Word = ''go'', WorkerCount = 2\<rparr>
       (\<lambda>p. if p = ''a.txt'' then Inr \<lparr>tokens = [''go is fun'', ''I go home''], scan_err = None\<rparr>
            else Inl (PathError p))
       [Dispatch, Dispatch, Dispatch, Dispatch, Dispatch, Dispatch, Dispatch,
        Work 0, Work 1, Work 1, Work 1, Work 0, Work 0, Work 0, Work 0, Work 0, Work 0, Work 1,
        Dispatch, Dispatch]
       (ProcessFiles_init \<lparr>Files = [''a.txt'', ''b.txt''], Word = ''go'', WorkerCount = 2\<rparr> None))
   = Some (Returned, None, [],
       [\<lparr>Result.FilePath = ''b.txt'', WordCount = 0, Error = Some (PathError ''b.txt'')\<rparr>,
        \<lparr>Result.FilePath = ''a.txt'', WordCount = 2, Error = None\<rparr>])
  \<and> mset [\<lparr>Result.FilePath = ''b.txt'', WordCount = 0, Error = Some (PathError ''b.txt'')\<rparr>,
        \<lparr>Result.FilePath = ''a.txt'', WordCount = 2, Error = None\<rparr>]
    = mset (map (\<lambda>filepath.
          CountWord (\<lambda>p. if p = ''a.txt''
                        then Inr \<lparr>tokens = [''go is fun'', ''I go home''], scan_err = None\<rparr>
                        else Inl (PathError p))
            never_done
            (Job_for \<lparr>Files = [''a.txt'', ''b.txt''], Word = ''go'', WorkerCount = 2\<rparr> filepath))
        [''a.txt'', ''b.txt''])"
proof -
  let ?fp = "\<lparr>Files = [''a.txt'', ''b.txt''], Word = ''go'', WorkerCount = 2\<rparr>"
  let ?fs = "\<lambda>p. if p = ''a.txt''
      then (Inr \<lparr>tokens = [''go is fun'', ''I go home''], scan_err = None\<rparr> :: error + scanned)
      else Inl (PathError p)"
  let ?sched = "[Dispatch, Dispatch, Dispatch, Dispatch, Dispatch, Dispatch, Dispatch,
        Work 0, Work 1, Work 1, Work 1, Work 0, Work 0, Work 0, Work 0, Work 0, Work 0, Work 1,
        Dispatch, Dispatch]"
  let ?rs = "[\<lparr>Result.FilePath = ''b.txt'', WordCount = 0, Error = Some (PathError ''b.txt'')\<rparr>,
        \<lparr>Result.FilePath = ''a.txt'', WordCount = 2, Error = None\<rparr>]"
  have ev: "map_option (\<lambda>s. (disp s, ctx_err s, buf (jobs s), buf (results s)))
      (run ?fp ?fs ?sched (ProcessFiles_init ?fp None)) = Some (Returned, None, [], ?rs)"
    by code_simp
  then obtain s where s: "run ?fp ?fs ?sched (ProcessFiles_init ?fp None) = Some s"
    "disp s = Returned" "ctx_err s = None" "buf (results s) = ?rs"
    by auto
  from one_Result_per_Job [OF s(1)] s(2,3)
  have "mset (buf (results s))
      = mset (map (\<lambda>filepath. CountWord ?fs never_done (Job_for ?fp filepath)) (Files ?fp))"
    by simp
  with s(4) ev show ?thesis by simp
qed

text \<open>
  C5. When the file cannot be opened, CountWord returns a Result with the error of
  \<open>os.Open\<close> and the count 0. When the scanner ends with a read error, and no poll
  has seen the context done, CountWord returns a Result with that error and the
  count 0, whatever it had counted. The Result of a Job depends on the file of that
  Job only, and an error does not stop the run: from every state ProcessFiles can
  still return, and when it has returned, with at least one worker and no
  cancellation, every file has its own Result in the channel.
\<close>

theorem file_errors_stay_in_their_Result:
  "(fs (Job.FilePath job) = Inl err \<longrightarrow>
      CountWord fs ctx job
        = \<lparr>Result.FilePath = Job.FilePath job, WordCount = 0, Error = Some err\<rparr>)
   \<and> (fs (Job.FilePath job) = Inr opened \<and> scan_err opened = Some err \<and>
        (\<forall>k < length (tokens opened). ctx k = None) \<longrightarrow>
      CountWord fs ctx job
        = \<lparr>Result.FilePath = Job.FilePath job, WordCount = 0, Error = Some err\<rparr>)
   \<and> (fs' (Job.FilePath job) = fs (Job.FilePath job) \<longrightarrow>
      CountWord fs' ctx job = CountWord fs ctx job)
   \<and> (run fp fs sched (ProcessFiles_init fp c) = Some s \<longrightarrow>
      (\<exists>more s'. \<not> list_ex is_Cancel more \<and> run fp fs more s = Some s' \<and> disp s' = Returned)
      \<and> (disp s = Returned \<and> ctx_err s = None \<and> 1 \<le> WorkerCount fp \<longrightarrow>
           mset (buf (results s))
             = mset (map (\<lambda>filepath. CountWord fs never_done (Job_for fp filepath)) (Files fp))))"
proof (intro conjI impI)
  assume "fs (Job.FilePath job) = Inl err"
  then show "CountWord fs ctx job
      = \<lparr>Result.FilePath = Job.FilePath job, WordCount = 0, Error = Some err\<rparr>"
    by (rule CountWord_open_failed)
next
  assume "fs (Job.FilePath job) = Inr opened \<and> scan_err opened = Some err \<and>
      (\<forall>k < length (tokens opened). ctx k = None)"
  then have "fs (Job.FilePath job) = Inr opened" "scan_err opened = Some err"
    "\<forall>k < length (tokens opened). ctx k = None" by simp_all
  then show "CountWord fs ctx job
      = \<lparr>Result.FilePath = Job.FilePath job, WordCount = 0, Error = Some err\<rparr>"
    by (rule CountWord_scan_failed)
next
  assume "fs' (Job.FilePath job) = fs (Job.FilePath job)"
  then show "CountWord fs' ctx job = CountWord fs ctx job" by (simp add: CountWord_def)
next
  assume "run fp fs sched (ProcessFiles_init fp c) = Some s"
  then have "invariant fp fs s" by (rule invariant_run)
  then show "\<exists>more s'. \<not> list_ex is_Cancel more \<and> run fp fs more s = Some s' \<and> disp s' = Returned"
    by (rule run_completes)
next
  assume r: "run fp fs sched (ProcessFiles_init fp c) = Some s"
    and "disp s = Returned \<and> ctx_err s = None \<and> 1 \<le> WorkerCount fp"
  then have "disp s = Returned" "ctx_err s = None" "1 \<le> WorkerCount fp" by simp_all
  with invariant_run [OF r] show "mset (buf (results s))
      = mset (map (\<lambda>filepath. CountWord fs never_done (Job_for fp filepath)) (Files fp))"
    by (rule returned_results(2))
qed

theorem file_errors_stay_in_their_Result_witness:
  "map_option (\<lambda>s. (disp s, ctx_err s, buf (results s)))
    (run \<lparr>Files = [''missing.txt'', ''broken.txt'', ''a.txt''], Word = ''go'', WorkerCount = 1\<rparr>
       (\<lambda>p. if p = ''a.txt'' then Inr \<lparr>tokens = [''go is fun'', ''I go home''], scan_err = None\<rparr>
            else if p = ''broken.txt''
            then Inr \<lparr>tokens = [''go go''], scan_err = Some (ScanError ''input/output error'')\<rparr>
            else Inl (PathError p))
       [Dispatch, Dispatch, Dispatch, Dispatch, Dispatch, Dispatch, Dispatch,
        Work 0, Work 0, Work 0,
        Work 0, Work 0, Work 0, Work 0, Work 0,
        Work 0, Work 0, Work 0, Work 0, Work 0, Work 0, Work 0,
        Dispatch, Dispatch]
       (ProcessFiles_init
          \<lparr>Files = [''missing.txt'', ''broken.txt'', ''a.txt''], Word = ''go'', WorkerCount = 1\<rparr>
          None))
   = Some (Returned, None,
       [\<lparr>Result.FilePath = ''missing.txt'', WordCount = 0, Error = Some (PathError ''missing.txt'')\<rparr>,
        \<lparr>Result.FilePath = ''broken.txt'', WordCount = 0,
          Error = Some (ScanError ''input/output error'')\<rparr>,
        \<lparr>Result.FilePath = ''a.txt'', WordCount = 2, Error = None\<rparr>])
  \<and> CountWord (\<lambda>p. Inl (PathError p)) never_done \<lparr>Job.FilePath = ''missing.txt'', Job.Word = ''go''\<rparr>
    = \<lparr>Result.FilePath = ''missing.txt'', WordCount = 0, Error = Some (PathError ''missing.txt'')\<rparr>
  \<and> CountWord (\<lambda>p. Inr \<lparr>tokens = [''go go''], scan_err = Some (ScanError ''input/output error'')\<rparr>)
      never_done \<lparr>Job.FilePath = ''broken.txt'', Job.Word = ''go''\<rparr>
    = \<lparr>Result.FilePath = ''broken.txt'', WordCount = 0,
        Error = Some (ScanError ''input/output error'')\<rparr>
  \<and> mset [\<lparr>Result.FilePath = ''missing.txt'', WordCount = 0, Error = Some (PathError ''missing.txt'')\<rparr>,
        \<lparr>Result.FilePath = ''broken.txt'', WordCount = 0,
          Error = Some (ScanError ''input/output error'')\<rparr>,
        \<lparr>Result.FilePath = ''a.txt'', WordCount = 2, Error = None\<rparr>]
    = mset (map (\<lambda>filepath.
          CountWord (\<lambda>p. if p = ''a.txt''
                then Inr \<lparr>tokens = [''go is fun'', ''I go home''], scan_err = None\<rparr>
                else if p = ''broken.txt''
                then Inr \<lparr>tokens = [''go go''], scan_err = Some (ScanError ''input/output error'')\<rparr>
                else Inl (PathError p))
            never_done
            (Job_for \<lparr>Files = [''missing.txt'', ''broken.txt'', ''a.txt''], Word = ''go'',
                       WorkerCount = 1\<rparr> filepath))
        [''missing.txt'', ''broken.txt'', ''a.txt''])"
proof -
  define fp where "fp =
    \<lparr>Files = [''missing.txt'', ''broken.txt'', ''a.txt''], Word = ''go'', WorkerCount = 1\<rparr>"
  define broken where "broken =
    \<lparr>tokens = [''go go''], scan_err = Some (ScanError ''input/output error'')\<rparr>"
  define fs :: filesystem where "fs = (\<lambda>p. if p = ''a.txt''
      then Inr \<lparr>tokens = [''go is fun'', ''I go home''], scan_err = None\<rparr>
      else if p = ''broken.txt''
      then Inr \<lparr>tokens = [''go go''], scan_err = Some (ScanError ''input/output error'')\<rparr>
      else Inl (PathError p))"
  define sched where "sched = [Dispatch, Dispatch, Dispatch, Dispatch, Dispatch, Dispatch, Dispatch,
        Work 0, Work 0, Work 0,
        Work 0, Work 0, Work 0, Work 0, Work 0,
        Work 0, Work 0, Work 0, Work 0, Work 0, Work 0, Work 0,
        Dispatch, Dispatch]"
  define rs where "rs =
       [\<lparr>Result.FilePath = ''missing.txt'', WordCount = 0, Error = Some (PathError ''missing.txt'')\<rparr>,
        \<lparr>Result.FilePath = ''broken.txt'', WordCount = 0,
          Error = Some (ScanError ''input/output error'')\<rparr>,
        \<lparr>Result.FilePath = ''a.txt'', WordCount = 2, Error = None\<rparr>]"
  have ev: "map_option (\<lambda>s. (disp s, ctx_err s, buf (results s)))
      (run fp fs sched (ProcessFiles_init fp None)) = Some (Returned, None, rs)"
    unfolding fp_def fs_def sched_def rs_def by code_simp
  have a: "CountWord (\<lambda>p. Inl (PathError p)) never_done
        \<lparr>Job.FilePath = ''missing.txt'', Job.Word = ''go''\<rparr>
      = \<lparr>Result.FilePath = ''missing.txt'', WordCount = 0, Error = Some (PathError ''missing.txt'')\<rparr>"
    using file_errors_stay_in_their_Result
      [of "\<lambda>p. Inl (PathError p)" "\<lparr>Job.FilePath = ''missing.txt'', Job.Word = ''go''\<rparr>"
        "PathError ''missing.txt''" never_done]
    by simp
  have b: "CountWord (\<lambda>p. Inr broken) never_done \<lparr>Job.FilePath = ''broken.txt'', Job.Word = ''go''\<rparr>
      = \<lparr>Result.FilePath = ''broken.txt'', WordCount = 0,
          Error = Some (ScanError ''input/output error'')\<rparr>"
    using file_errors_stay_in_their_Result
      [of "\<lambda>p. Inr broken" "\<lparr>Job.FilePath = ''broken.txt'', Job.Word = ''go''\<rparr>"
        "ScanError ''input/output error''" never_done broken]
    by (simp add: never_done_def broken_def)
  from ev obtain s where s: "run fp fs sched (ProcessFiles_init fp None) = Some s"
    "disp s = Returned" "ctx_err s = None" "buf (results s) = rs"
    by auto
  from file_errors_stay_in_their_Result
    [of fs _ _ _ _ _ fp sched None s, THEN conjunct2, THEN conjunct2, THEN conjunct2]
  have "run fp fs sched (ProcessFiles_init fp None) = Some s \<longrightarrow>
      (\<exists>more s'. \<not> list_ex is_Cancel more \<and> run fp fs more s = Some s' \<and> disp s' = Returned)
      \<and> (disp s = Returned \<and> ctx_err s = None \<and> 1 \<le> WorkerCount fp \<longrightarrow>
           mset (buf (results s))
             = mset (map (\<lambda>filepath. CountWord fs never_done (Job_for fp filepath)) (Files fp)))" .
  moreover have "1 \<le> WorkerCount fp" by (simp add: fp_def)
  ultimately have "mset (buf (results s))
      = mset (map (\<lambda>filepath. CountWord fs never_done (Job_for fp filepath)) (Files fp))"
    using s(1,2,3) by blast
  moreover have "Files fp = [''missing.txt'', ''broken.txt'', ''a.txt'']" by (simp add: fp_def)
  ultimately have c: "mset rs
      = mset (map (\<lambda>filepath. CountWord fs never_done (Job_for fp filepath))
          [''missing.txt'', ''broken.txt'', ''a.txt''])"
    using s(4) by simp
  from ev a b c show ?thesis unfolding fp_def fs_def sched_def rs_def broken_def by blast
qed





section \<open>Claims about the configuration\<close>

text \<open>
  C3, as the specification states it: a worker count of 0 or less is rejected before
  any processing starts. The code does not: with the worker count 0, LoadConfig
  returns the processor and a nil error, and main runs ProcessFiles to its end
  without printing a configuration failure, and without a Result.
\<close>

theorem nonpositive_WorkerCount_rejected_counterexample:
  "GetInt_workerCount
      \<lparr>ReadInConfig = None, GetStringSlice_files = [''./sample1.txt''], GetString_files = [],
       GetString_word = ''go'', GetInt_workerCount = 0\<rparr> = 0
   \<and> LoadConfig
      \<lparr>ReadInConfig = None, GetStringSlice_files = [''./sample1.txt''], GetString_files = [],
       GetString_word = ''go'', GetInt_workerCount = 0\<rparr>
     = (\<lparr>Files = [''./sample1.txt''], Word = ''go'', WorkerCount = 0\<rparr>, None,
        [EnvFiles [''./sample1.txt''], WordLine ''go'', WorkerLine 0])
   \<and> main
      \<lparr>ReadInConfig = None, GetStringSlice_files = [''./sample1.txt''], GetString_files = [],
       GetString_word = ''go'', GetInt_workerCount = 0\<rparr>
      (\<lambda>p. Inr \<lparr>tokens = [''go is fun''], scan_err = None\<rparr>)
      [Dispatch, Dispatch, Dispatch, Dispatch, Dispatch, Dispatch]
     = Some [EnvFiles [''./sample1.txt''], WordLine ''go'', WorkerLine 0]"
  by code_simp


text \<open>
  C3, amended. A worker count of 0 or less is not rejected: LoadConfig returns the
  processor with that count and a nil error. ProcessFiles then starts no worker and
  does not hang: in every state of every run there is no worker and no Result, the
  run can go on until ProcessFiles returns, and when it has returned the result
  channel is closed and empty and every Job is still in the job queue.
\<close>

theorem nonpositive_WorkerCount_runs_without_workers:
  assumes "GetInt_workerCount v \<le> 0" and "LoadConfig v = (fp, err, out)"
  shows "err = None \<and> WorkerCount fp = GetInt_workerCount v
    \<and> (run fp fs sched (ProcessFiles_init fp ctx) = Some s \<longrightarrow>
         workers s = [] \<and> buf (results s) = []
         \<and> (\<exists>more s'. \<not> list_ex is_Cancel more \<and> run fp fs more s = Some s'
               \<and> disp s' = Returned)
         \<and> (disp s = Returned \<longrightarrow>
               closed (results s) \<and> buf (jobs s) = map (Job_for fp) (Files fp)))"
proof -
  from assms(2) have e: "err = None" and wc: "WorkerCount fp = GetInt_workerCount v"
    by (auto simp: LoadConfig_eq)
  have "workers s = [] \<and> buf (results s) = []
      \<and> (\<exists>more s'. \<not> list_ex is_Cancel more \<and> run fp fs more s = Some s' \<and> disp s' = Returned)
      \<and> (disp s = Returned \<longrightarrow>
            closed (results s) \<and> buf (jobs s) = map (Job_for fp) (Files fp))"
    if r: "run fp fs sched (ProcessFiles_init fp ctx) = Some s"
  proof -
    from wc assms(1) have le: "WorkerCount fp \<le> 0" by simp
    note nw = no_workers_run [OF r le]
    from r have inv: "invariant fp fs s" by (rule invariant_run)
    then have c: "\<exists>more s'. \<not> list_ex is_Cancel more \<and> run fp fs more s = Some s'
        \<and> disp s' = Returned"
      by (rule run_completes)
    have "closed (results s) \<and> buf (jobs s) = map (Job_for fp) (Files fp)"
      if ret: "disp s = Returned"
    proof -
      from inv ret have "closed (results s)" by (simp add: invariant_def phase_inv_def)
      moreover from inv ret nw(2) have "buf (jobs s) = map (Job_for fp) (Files fp)"
        by (rule returned_queue_untouched)
      ultimately show ?thesis by simp
    qed
    with nw c show ?thesis by blast
  qed
  with e wc show ?thesis by blast
qed

theorem nonpositive_WorkerCount_runs_without_workers_witness:
  "GetInt_workerCount
      \<lparr>ReadInConfig = None, GetStringSlice_files = [''a.txt'', ''b.txt''], GetString_files = [],
       GetString_word = ''go'', GetInt_workerCount = - 3\<rparr> \<le> 0
   \<and> LoadConfig
      \<lparr>ReadInConfig = None, GetStringSlice_files = [''a.txt'', ''b.txt''], GetString_files = [],
       GetString_word = ''go'', GetInt_workerCount = - 3\<rparr>
     = (\<lparr>Files = [''a.txt'', ''b.txt''], Word = ''go'', WorkerCount = - 3\<rparr>, None,
        [EnvFiles [''a.txt'', ''b.txt''], WordLine ''go'', WorkerLine (- 3)])
   \<and> map_option (\<lambda>s. (disp s, workers s, buf (results s), closed (results s), buf (jobs s)))
      (run \<lparr>Files = [''a.txt'', ''b.txt''], Word = ''go'', WorkerCount = - 3\<rparr>
         (\<lambda>p. Inr \<lparr>tokens = [''go is fun''], scan_err = None\<rparr>)
         [Dispatch, Dispatch, Dispatch, Dispatch, Dispatch, Dispatch, Dispatch]
         (ProcessFiles_init \<lparr>Files = [''a.txt'', ''b.txt''], Word = ''go'', WorkerCount = - 3\<rparr> None))
     = Some (Returned, [], [], True,
         [\<lparr>Job.FilePath = ''a.txt'', Job.Word = ''go''\<rparr>,
          \<lparr>Job.FilePath = ''b.txt'', Job.Word = ''go''\<rparr>])"
proof -
  define v where "v = \<lparr>ReadInConfig = None, GetStringSlice_files = [''a.txt'', ''b.txt''],
    GetString_files = [], GetString_word = ''go'', GetInt_workerCount = - 3\<rparr>"
  define fp where "fp = \<lparr>Files = [''a.txt'', ''b.txt''], Word = ''go'', WorkerCount = - 3\<rparr>"
  define fs :: filesystem where "fs = (\<lambda>p. Inr \<lparr>tokens = [''go is fun''], scan_err = None\<rparr>)"
  define sched where "sched = [Dispatch, Dispatch, Dispatch, Dispatch, Dispatch, Dispatch, Dispatch]"
  have h: "GetInt_workerCount v \<le> 0" by (simp add: v_def)
  have l: "LoadConfig v
      = (fp, None, [EnvFiles [''a.txt'', ''b.txt''], WordLine ''go'', WorkerLine (- 3)])"
    by (simp add: LoadConfig_eq v_def fp_def)
  have "map_option disp (run fp fs sched (ProcessFiles_init fp None)) = Some Returned"
    unfolding fp_def fs_def sched_def by code_simp
  then obtain s where s: "run fp fs sched (ProcessFiles_init fp None) = Some s" "disp s = Returned"
    by auto
  from nonpositive_WorkerCount_runs_without_workers [OF h l, of fs sched None s] s
  have "workers s = []" "buf (results s) = []" "closed (results s)"
    "buf (jobs s) = map (Job_for fp) (Files fp)"
    by simp_all
  then have "map_option (\<lambda>s. (disp s, workers s, buf (results s), closed (results s), buf (jobs s)))
      (run fp fs sched (ProcessFiles_init fp None))
    = Some (Returned, [], [], True,
         [\<lparr>Job.FilePath = ''a.txt'', Job.Word = ''go''\<rparr>,
          \<lparr>Job.FilePath = ''b.txt'', Job.Word = ''go''\<rparr>])"
    using s by (simp add: fp_def Job_for_def)
  with h l show ?thesis unfolding v_def fp_def fs_def sched_def by blast
qed

text \<open>
  C8, as the specification states it: an empty target word is rejected as a
  configuration error and never becomes a Job. The code does not reject it: with the
  word \<open>""\<close> LoadConfig returns a nil error, and main prints a count for the file:
  20 for two lines of 9 bytes each, one more than the length of each line.
\<close>

theorem empty_Word_rejected_counterexample:
  "LoadConfig
      \<lparr>ReadInConfig = None, GetStringSlice_files = [''./sample1.txt''], GetString_files = [],
       GetString_word = [], GetInt_workerCount = 1\<rparr>
     = (\<lparr>Files = [''./sample1.txt''], Word = [], WorkerCount = 1\<rparr>, None,
        [EnvFiles [''./sample1.txt''], WordLine [], WorkerLine 1])
   \<and> main
      \<lparr>ReadInConfig = None, GetStringSlice_files = [''./sample1.txt''], GetString_files = [],
       GetString_word = [], GetInt_workerCount = 1\<rparr>
      (\<lambda>p. Inr \<lparr>tokens = [''go is fun'', ''I go home''], scan_err = None\<rparr>)
      [Dispatch, Dispatch, Dispatch, Dispatch, Dispatch,
       Work 0, Work 0, Work 0, Work 0, Work 0, Work 0, Work 0, Dispatch, Dispatch]
     = Some [EnvFiles [''./sample1.txt''], WordLine [], WorkerLine 1,
         Processed ''./sample1.txt'' 20]"
  by code_simp


text \<open>
  C8, amended. An empty target word is not rejected: LoadConfig returns the processor
  with the empty word and a nil error, the Job of every file carries the empty word,
  and for a file scanned to its end without read error or cancellation CountWord
  returns, as the count, the total over the lines of the number of UTF-8 runes of
  the line plus one.
\<close>

theorem empty_Word_counts_runes:
  assumes "GetString_word v = []" and "LoadConfig v = (fp, err, out)"
  shows "err = None \<and> FileProcessor.Word fp = []
    \<and> Job_for fp filepath = \<lparr>Job.FilePath = filepath, Job.Word = []\<rparr>
    \<and> (fs filepath = Inr opened \<and> scan_err opened = None
          \<and> (\<forall>k < length (tokens opened). ctx k = None) \<longrightarrow>
        CountWord fs ctx (Job_for fp filepath)
          = \<lparr>Result.FilePath = filepath,
             WordCount = of_nat (\<Sum>line\<leftarrow>tokens opened. RuneCountInString line + 1),
             Error = None\<rparr>)"
proof -
  from assms have e: "err = None" and w: "FileProcessor.Word fp = []"
    by (auto simp: LoadConfig_eq)
  from w have j: "Job_for fp filepath = \<lparr>Job.FilePath = filepath, Job.Word = []\<rparr>"
    by (simp add: Job_for_def)
  have "CountWord fs ctx (Job_for fp filepath)
      = \<lparr>Result.FilePath = filepath,
         WordCount = of_nat (\<Sum>line\<leftarrow>tokens opened. RuneCountInString line + 1),
         Error = None\<rparr>"
    if "fs filepath = Inr opened \<and> scan_err opened = None
      \<and> (\<forall>k < length (tokens opened). ctx k = None)"
  proof -
    from that have "fs (Job.FilePath (Job_for fp filepath)) = Inr opened"
      "scan_err opened = None" "\<forall>k < length (tokens opened). ctx k = None"
      by (simp_all add: Job_for_def)
    then have "CountWord fs ctx (Job_for fp filepath)
        = \<lparr>Result.FilePath = Job.FilePath (Job_for fp filepath),
           WordCount = of_nat (counted (Job.Word (Job_for fp filepath)) (tokens opened)),
           Error = None\<rparr>"
      by (rule CountWord_clean)
    moreover have "counted [] (tokens opened) = (\<Sum>line\<leftarrow>tokens opened. RuneCountInString line + 1)"
      by (simp add: counted_def Count_empty)
    ultimately show ?thesis by (simp add: j)
  qed
  with e w j show ?thesis by blast
qed

theorem empty_Word_counts_runes_witness:
  "LoadConfig
      \<lparr>ReadInConfig = None, GetStringSlice_files = [''./sample1.txt''], GetString_files = [],
       GetString_word = [], GetInt_workerCount = 1\<rparr>
     = (\<lparr>Files = [''./sample1.txt''], Word = [], WorkerCount = 1\<rparr>, None,
        [EnvFiles [''./sample1.txt''], WordLine [], WorkerLine 1])
   \<and> CountWord (\<lambda>p. Inr \<lparr>tokens = [''go is fun'', ''I go home''], scan_err = None\<rparr>) never_done
        (Job_for \<lparr>Files = [''./sample1.txt''], Word = [], WorkerCount = 1\<rparr> ''./sample1.txt'')
     = \<lparr>Result.FilePath = ''./sample1.txt'', WordCount = 20, Error = None\<rparr>"
proof -
  define v where "v = \<lparr>ReadInConfig = None, GetStringSlice_files = [''./sample1.txt''],
    GetString_files = [], GetString_word = [], GetInt_workerCount = 1\<rparr>"
  define fp where "fp = \<lparr>Files = [''./sample1.txt''], Word = [], WorkerCount = 1\<rparr>"
  define opened where "opened = \<lparr>tokens = [''go is fun'', ''I go home''], scan_err = None\<rparr>"
  have h: "GetString_word v = []" by (simp add: v_def)
  have l: "LoadConfig v = (fp, None, [EnvFiles [''./sample1.txt''], WordLine [], WorkerLine 1])"
    by (simp add: LoadConfig_eq v_def fp_def)
  have n: "(\<Sum>line\<leftarrow>[''go is fun'', ''I go home'']. RuneCountInString line + 1) = 20"
    by code_simp
  have pre: "scan_err opened = None" by (simp add: opened_def)
  have nd: "\<forall>k < length (tokens opened). never_done k = None" by (simp add: never_done_def)
  have t: "tokens opened = [''go is fun'', ''I go home'']" by (simp add: opened_def)
  from empty_Word_counts_runes
    [OF h l, of "''./sample1.txt''" "\<lambda>p. Inr opened" opened never_done] pre nd
  have "CountWord (\<lambda>p. Inr opened) never_done (Job_for fp ''./sample1.txt'')
      = \<lparr>Result.FilePath = ''./sample1.txt'',
         WordCount = of_nat (\<Sum>line\<leftarrow>tokens opened. RuneCountInString line + 1),
         Error = None\<rparr>"
    by blast
  then have "CountWord (\<lambda>p. Inr opened) never_done (Job_for fp ''./sample1.txt'')
      = \<lparr>Result.FilePath = ''./sample1.txt'', WordCount = 20, Error = None\<rparr>"
    by (simp only: t n of_nat_numeral)
  with l show ?thesis unfolding v_def fp_def opened_def by blast
qed


text \<open>
  C9. LoadConfig returns a nil error for every state of the configuration: the
  processor takes the file list, the word and the worker count as the getters give
  them, with no validation; a failure of \<open>viper.ReadInConfig\<close> only adds a printed
  line. So main never takes its branch for a configuration failure: no run of main
  prints the line of that branch.
\<close>

theorem LoadConfig_never_fails:
  "fst (snd (LoadConfig v)) = None
   \<and> Files (fst (LoadConfig v))
       = (if GetString_files v \<noteq> [] then Split_comma (GetString_files v)
          else GetStringSlice_files v)
   \<and> FileProcessor.Word (fst (LoadConfig v)) = GetString_word v
   \<and> WorkerCount (fst (LoadConfig v)) = GetInt_workerCount v
   \<and> LoadConfig (v\<lparr>ReadInConfig := Some e\<rparr>)
       = (fst (LoadConfig (v\<lparr>ReadInConfig := None\<rparr>)), None,
          ConfigReadError e # snd (snd (LoadConfig (v\<lparr>ReadInConfig := None\<rparr>))))
   \<and> (main v fs sched = Some out \<longrightarrow> ConfigFailure e' \<notin> set out)"
proof -
  have m: "ConfigFailure e' \<notin> set out" if "main v fs sched = Some out"
  proof -
    obtain fp lines where l: "LoadConfig v = (fp, None, lines)"
      "ConfigFailure e' \<notin> set lines"
      by (auto simp: LoadConfig_eq split: option.splits)
    with that obtain s where s: "run fp fs sched (ProcessFiles_init fp None) = Some s"
      "out = lines @ printed s @ concat (map print_result (buf (results s)))"
      by (auto simp: main_def split: if_splits option.splits)
    from printed_run [OF s(1)] have "ConfigFailure e' \<notin> set (printed s)" by auto
    moreover have "ConfigFailure e' \<notin> set (concat (map print_result (buf (results s))))"
      by (auto simp: print_result_no_ConfigFailure)
    ultimately show ?thesis using l(2) s(2) by simp
  qed
  have "fst (snd (LoadConfig v)) = None" by (simp add: LoadConfig_eq)
  moreover have "Files (fst (LoadConfig v))
       = (if GetString_files v \<noteq> [] then Split_comma (GetString_files v)
          else GetStringSlice_files v)"
    by (simp add: LoadConfig_eq)
  moreover have "FileProcessor.Word (fst (LoadConfig v)) = GetString_word v"
    by (simp add: LoadConfig_eq)
  moreover have "WorkerCount (fst (LoadConfig v)) = GetInt_workerCount v"
    by (simp add: LoadConfig_eq)
  moreover have "LoadConfig (v\<lparr>ReadInConfig := Some e\<rparr>)
       = (fst (LoadConfig (v\<lparr>ReadInConfig := None\<rparr>)), None,
          ConfigReadError e # snd (snd (LoadConfig (v\<lparr>ReadInConfig := None\<rparr>))))"
    by (simp add: LoadConfig_eq)
  ultimately show ?thesis using m by blast
qed

theorem LoadConfig_never_fails_witness:
  "main
      \<lparr>ReadInConfig = Some (ConfigFileError ''config file not found''),
       GetStringSlice_files = [''./sample1.txt''], GetString_files = [],
       GetString_word = ''go'', GetInt_workerCount = 1\<rparr>
      (\<lambda>p. Inl (PathError p))
      [Dispatch, Dispatch, Dispatch, Dispatch, Dispatch,
       Work 0, Work 0, Work 0, Work 0, Dispatch, Dispatch]
     = Some [ConfigReadError (ConfigFileError ''config file not found''),
         EnvFiles [''./sample1.txt''], WordLine ''go'', WorkerLine 1,
         FileError ''./sample1.txt'' (PathError ''./sample1.txt''),
         Processed ''./sample1.txt'' 0]
   \<and> ConfigFailure (ConfigFileError ''config file not found'')
       \<notin> set [ConfigReadError (ConfigFileError ''config file not found''),
         EnvFiles [''./sample1.txt''], WordLine ''go'', WorkerLine 1,
         FileError ''./sample1.txt'' (PathError ''./sample1.txt''),
         Processed ''./sample1.txt'' 0]"
proof -
  define v where "v = \<lparr>ReadInConfig = Some (ConfigFileError ''config file not found''),
       GetStringSlice_files = [''./sample1.txt''], GetString_files = [],
       GetString_word = ''go'', GetInt_workerCount = 1\<rparr>"
  define fs :: filesystem where "fs = (\<lambda>p. Inl (PathError p))"
  define sched where "sched = [Dispatch, Dispatch, Dispatch, Dispatch, Dispatch,
       Work 0, Work 0, Work 0, Work 0, Dispatch, Dispatch]"
  define out where "out = [ConfigReadError (ConfigFileError ''config file not found''),
         EnvFiles [''./sample1.txt''], WordLine ''go'', WorkerLine 1,
         FileError ''./sample1.txt'' (PathError ''./sample1.txt''),
         Processed ''./sample1.txt'' 0]"
  have ev: "main v fs sched = Some out"
    unfolding v_def fs_def sched_def out_def by code_simp
  from LoadConfig_never_fails [of v _ fs sched out] ev
  have "ConfigFailure (ConfigFileError ''config file not found'') \<notin> set out"
    by blast
  with ev show ?thesis unfolding v_def fs_def sched_def out_def by blast
qed

end
